theory Spec2Isabelle
  imports Main
begin

section \<open>Python strings\<close>

text \<open>
  A Python \<open>str\<close> is modelled as a list of code points in the range 0..255, one
  \<^typ>\<open>char\<close> per code point. The character classes below are the ones Python's
  Unicode database gives for that range.
\<close>

text \<open>\<open>str.lower()\<close> on one code point: A-Z and the Latin-1 capitals move up by 32.\<close>

definition py_lower_char :: "char \<Rightarrow> char" where
  "py_lower_char c =
     (let n = (of_char c :: nat)
      in if (65 \<le> n \<and> n \<le> 90) \<or> (192 \<le> n \<and> n \<le> 214) \<or> (216 \<le> n \<and> n \<le> 222)
         then char_of (n + 32) else c)"

definition py_lower :: "string \<Rightarrow> string" where
  "py_lower s = map py_lower_char s"

text \<open>\<open>s.startswith(kw)\<close>, and the substring test \<open>kw in text\<close>.\<close>

fun startswith :: "string \<Rightarrow> string \<Rightarrow> bool" where
  "startswith [] s = True"
| "startswith (k # ks) [] = False"
| "startswith (k # ks) (c # cs) = (k = c \<and> startswith ks cs)"

fun contains :: "string \<Rightarrow> string \<Rightarrow> bool" where
  "contains kw [] = (kw = [])"
| "contains kw (c # cs) = (startswith kw (c # cs) \<or> contains kw cs)"

text \<open>\<open>any(keyword in text for keyword in keywords)\<close>\<close>

definition any_keyword :: "string list \<Rightarrow> string \<Rightarrow> bool" where
  "any_keyword keywords text = list_ex (\<lambda>keyword. contains keyword text) keywords"

section \<open>Intent classification (analyze\_tickets.py)\<close>

text \<open>A ticket row of the CSV file; \<open>None\<close> is a missing (NaN) cell.\<close>

record ticket =
  Subject :: "string option"
  Description :: "string option"

definition fillna :: "string option \<Rightarrow> string" where
  "fillna v = (case v of None \<Rightarrow> [] | Some s \<Rightarrow> s)"

text \<open>
  \<open>df['text'] = df['Subject'].fillna('') + ' ' + df['Description'].fillna('')\<close>, then
  \<open>df['text'].str.lower()\<close>.
\<close>

definition ticket_text :: "ticket \<Rightarrow> string" where
  "ticket_text r = py_lower (fillna (Subject r) @ '' '' @ fillna (Description r))"

definition cancellation_keywords :: "string list" where
  "cancellation_keywords =
     [''cancel'', ''cancellation'', ''unsubscribe'', ''end my account'', ''close my account'']"

definition password_keywords :: "string list" where
  "password_keywords =
     [''password'', ''reset'', ''forgot'', ''login issue'', ''can'' @ [CHR 0x27] @ ''t log in'']"

definition refund_keywords :: "string list" where
  "refund_keywords = [''refund'', ''money back'', ''reimburse'']"

definition billing_keywords :: "string list" where
  "billing_keywords = [''billing'', ''charge'', ''invoice'', ''overcharged'', ''double charge'']"

definition payment_keywords :: "string list" where
  "payment_keywords =
     [''update card'', ''new card'', ''payment method'', ''credit card update'']"

definition technical_keywords :: "string list" where
  "technical_keywords = [''not working'', ''error'', ''issue'', ''problem'', ''bug'']"

definition hours_keywords :: "string list" where
  "hours_keywords = [''hours'', ''open'', ''close'', ''location'', ''address'']"

definition question_keywords :: "string list" where
  "question_keywords = [''how to'', ''question'', ''inquiry'', ''information'']"

definition plan_keywords :: "string list" where
  "plan_keywords = [''upgrade'', ''downgrade'', ''change plan'']"

definition product_keywords :: "string list" where
  "product_keywords = [''product'', ''service'', ''feature request'']"

text \<open>\<open>map_intent\<close>, the chain of \<open>if ... return\<close> of the analysis script.\<close>

definition map_intent :: "string \<Rightarrow> string" where
  "map_intent text =
     (if any_keyword cancellation_keywords text then ''Membership Cancellation''
      else if any_keyword password_keywords text then ''Password Reset / Login Issue''
      else if any_keyword refund_keywords text then ''Refund Request''
      else if any_keyword billing_keywords text then ''Billing Inquiry''
      else if any_keyword payment_keywords text then ''Update Payment Method''
      else if any_keyword technical_keywords text then ''Technical Issue''
      else if any_keyword hours_keywords text then ''Store Hours/Location Inquiry''
      else if any_keyword question_keywords text then ''General Question''
      else if any_keyword plan_keywords text then ''Plan Change Request''
      else if any_keyword product_keywords text then ''Product/Feature Request''
      else ''Other'')"

text \<open>The eleven labels \<open>map_intent\<close> can return, in the order of its rules.\<close>

definition intent_labels :: "string list" where
  "intent_labels =
     [''Membership Cancellation'', ''Password Reset / Login Issue'', ''Refund Request'',
      ''Billing Inquiry'', ''Update Payment Method'', ''Technical Issue'',
      ''Store Hours/Location Inquiry'', ''General Question'', ''Plan Change Request'',
      ''Product/Feature Request'', ''Other'']"

text \<open>
  The classifier as the specification words it: an ordered list of (keyword set, label)
  rules, the first matching rule decides, no match gives \<open>Other\<close>.
\<close>

definition intent_rules :: "(string list \<times> string) list" where
  "intent_rules =
     [(cancellation_keywords, ''Membership Cancellation''),
      (password_keywords, ''Password Reset / Login Issue''),
      (refund_keywords, ''Refund Request''),
      (billing_keywords, ''Billing Inquiry''),
      (payment_keywords, ''Update Payment Method''),
      (technical_keywords, ''Technical Issue''),
      (hours_keywords, ''Store Hours/Location Inquiry''),
      (question_keywords, ''General Question''),
      (plan_keywords, ''Plan Change Request''),
      (product_keywords, ''Product/Feature Request'')]"

fun first_matching_rule :: "(string list \<times> string) list \<Rightarrow> string \<Rightarrow> string" where
  "first_matching_rule [] text = ''Other''"
| "first_matching_rule ((keywords, label) # rules) text =
     (if any_keyword keywords text then label else first_matching_rule rules text)"

section \<open>Automation category (analyze\_tickets.py)\<close>

definition full_automation_intents :: "string list" where
  "full_automation_intents =
     [''Password Reset / Login Issue'', ''Store Hours/Location Inquiry'',
      ''General Question'', ''Billing Inquiry'', ''Plan Change Request'']"

definition agentic_workflow_intents :: "string list" where
  "agentic_workflow_intents =
     [''Membership Cancellation'', ''Refund Request'', ''Update Payment Method'']"

text \<open>
  \<open>df['text'].str.contains('angry|frustrated|...', na=False)\<close>: a regular expression
  search for an alternation of literal words, which succeeds exactly when one of the
  words occurs in the text.
\<close>

definition human_in_the_loop_keywords :: "string list" where
  "human_in_the_loop_keywords =
     [''angry'', ''frustrated'', ''disappointed'', ''legal'', ''lawsuit'', ''complaint'',
      ''escalate'', ''manager'', ''unresolved'']"

definition human_in_the_loop_mask :: "string \<Rightarrow> bool" where
  "human_in_the_loop_mask text = any_keyword human_in_the_loop_keywords text"

text \<open>
  The four masked assignments \<open>df.loc[mask, 'AutomationCategory'] = value\<close>, each as
  its effect on the category of one row.
\<close>

definition set_full_automation :: "string \<Rightarrow> string \<Rightarrow> string" where
  "set_full_automation intent category =
     (if intent \<in> set full_automation_intents then ''Full Automation'' else category)"

definition set_agentic_workflow :: "string \<Rightarrow> string \<Rightarrow> string" where
  "set_agentic_workflow intent category =
     (if intent \<in> set agentic_workflow_intents then ''Agentic Workflow'' else category)"

definition override_sentiment :: "string \<Rightarrow> string \<Rightarrow> string" where
  "override_sentiment text category =
     (if human_in_the_loop_mask text then ''Human-in-the-Loop'' else category)"

definition override_other :: "string \<Rightarrow> string \<Rightarrow> string" where
  "override_other intent category =
     (if intent = ''Other'' then ''Human-in-the-Loop'' else category)"

text \<open>The category of a row with the given intent and text, in the script's order.\<close>

definition automation_category :: "string \<Rightarrow> string \<Rightarrow> string" where
  "automation_category intent text =
     override_other intent
       (override_sentiment text
         (set_agentic_workflow intent
           (set_full_automation intent ''Human-in-the-Loop'')))"

text \<open>The derived columns of one row of the data frame.\<close>

record analysed_row =
  text_column :: string
  Intent :: string
  AutomationCategory :: string

definition analyse_row :: "ticket \<Rightarrow> analysed_row" where
  "analyse_row r =
     (let t = ticket_text r; i = map_intent t
      in \<lparr>text_column = t, Intent = i, AutomationCategory = automation_category i t\<rparr>)"

definition analyse_rows :: "ticket list \<Rightarrow> analysed_row list" where
  "analyse_rows df = map analyse_row df"

section \<open>Initial classification for topic discovery (discover\_topics.py)\<close>

text \<open>
  \<open>map_initial_intent\<close>: the text is lowercased inside the function, then the first
  three rules of the classifier are tried.
\<close>

definition map_initial_intent :: "string \<Rightarrow> string" where
  "map_initial_intent raw =
     (let text = py_lower raw
      in if any_keyword cancellation_keywords text then ''Membership Cancellation''
         else if any_keyword password_keywords text then ''Password Reset / Login Issue''
         else if any_keyword refund_keywords text then ''Refund Request''
         else ''Other'')"

section \<open>Topic discovery (discover\_topics.py)\<close>

definition NUM_TOPICS :: nat where
  "NUM_TOPICS = 10"

definition NUM_WORDS_PER_TOPIC :: nat where
  "NUM_WORDS_PER_TOPIC = 15"

text \<open>Python exceptions that the script can meet.\<close>

datatype exception = FileNotFoundError | ValueError | IndexError

text \<open>
  How a run of the script ends: the function returns, it calls \<open>sys.exit(arg)\<close>, or an
  exception nobody catches ends the interpreter.
\<close>

datatype outcome = Returned | SysExit "int option" | Uncaught exception

text \<open>
  The exit status the interpreter reports: 0 after a normal return, the argument of
  \<open>sys.exit\<close> (0 when there is none), 1 after an uncaught exception.
\<close>

fun exit_status :: "outcome \<Rightarrow> int" where
  "exit_status Returned = 0"
| "exit_status (SysExit None) = 0"
| "exit_status (SysExit (Some n)) = n"
| "exit_status (Uncaught e) = 1"

text \<open>
  \<open>df['text'] = df['Subject'].fillna('') + ' ' + df['Description'].fillna('')\<close>; this
  script does not lowercase the column.
\<close>

definition raw_text :: "ticket \<Rightarrow> string" where
  "raw_text r = fillna (Subject r) @ '' '' @ fillna (Description r)"

definition other_tickets :: "ticket list \<Rightarrow> string list" where
  "other_tickets df = filter (\<lambda>t. map_initial_intent t = ''Other'') (map raw_text df)"

text \<open>
  \<open>numpy.argmax\<close> of one row: the index of the first largest entry; an empty row raises
  ValueError. Weights are floating-point numbers, of which only the order is used; they
  are modelled as values of any linear order.
\<close>

fun argmax_loop :: "'w::linorder list \<Rightarrow> nat \<Rightarrow> 'w \<Rightarrow> nat \<Rightarrow> nat" where
  "argmax_loop [] i best best_i = best_i"
| "argmax_loop (x # xs) i best best_i =
     (if best < x then argmax_loop xs (Suc i) x i else argmax_loop xs (Suc i) best best_i)"

definition argmax :: "'w::linorder list \<Rightarrow> exception + nat" where
  "argmax row = (case row of [] \<Rightarrow> Inl ValueError | x # xs \<Rightarrow> Inr (argmax_loop xs 1 x 0))"

text \<open>\<open>lda.transform(X).argmax(axis=1)\<close>: one topic per document.\<close>

fun topic_assignments :: "'w::linorder list list \<Rightarrow> exception + nat list" where
  "topic_assignments [] = Inr []"
| "topic_assignments (row # rows) =
     (case argmax row of
        Inl e \<Rightarrow> Inl e
      | Inr t \<Rightarrow> (case topic_assignments rows of Inl e \<Rightarrow> Inl e | Inr ts \<Rightarrow> Inr (t # ts)))"

text \<open>
  \<open>pd.Series(...).value_counts()\<close>: the values that occur, each with its number of
  occurrences, and \<open>Series.get(key, default)\<close>.
\<close>

definition value_counts :: "nat list \<Rightarrow> (nat \<rightharpoonup> nat)" where
  "value_counts xs = (\<lambda>v. if v \<in> set xs then Some (count_list xs v) else None)"

definition series_get :: "(nat \<rightharpoonup> nat) \<Rightarrow> nat \<Rightarrow> nat \<Rightarrow> nat" where
  "series_get counts k d = (case counts k of None \<Rightarrow> d | Some v \<Rightarrow> v)"

text \<open>
  \<open>numpy.argsort\<close> is a library call and a parameter of the model. What numpy
  promises of its result is \<open>is_argsort\<close>: it holds every index once, and the weights
  ascend along it. With the default sorting kind the order of indices of equal weight is
  not specified.
\<close>

definition is_argsort :: "'w::linorder list \<Rightarrow> nat list \<Rightarrow> bool" where
  "is_argsort ws order =
     (distinct order \<and> set order = {..<length ws} \<and> sorted (map (\<lambda>i. ws ! i) order))"

text \<open>The slice \<open>a[:-n - 1:-1]\<close>: the last \<open>n\<close> entries, from the last one backwards.\<close>

definition last_reversed :: "nat \<Rightarrow> 'a list \<Rightarrow> 'a list" where
  "last_reversed n xs = take n (rev xs)"

text \<open>
  \<open>[feature_names[i] for i in topic_keywords.argsort()[:-NUM_WORDS_PER_TOPIC - 1:-1]]\<close>;
  an index beyond the feature names raises IndexError.
\<close>

definition top_words ::
  "('w::linorder list \<Rightarrow> nat list) \<Rightarrow> string list \<Rightarrow> 'w list \<Rightarrow> exception + string list" where
  "top_words argsort feature_names topic_keywords =
     (let idx = last_reversed NUM_WORDS_PER_TOPIC (argsort topic_keywords)
      in if list_all (\<lambda>i. i < length feature_names) idx
         then Inr (map (\<lambda>i. feature_names ! i) idx)
         else Inl IndexError)"

text \<open>
  The ranking as the specification words it: the terms by descending weight, equal
  weights in vocabulary order (the earlier index first), cut to the first
  \<open>NUM_WORDS_PER_TOPIC\<close>.
\<close>

fun insert_ranked :: "'w::linorder list \<Rightarrow> nat \<Rightarrow> nat list \<Rightarrow> nat list" where
  "insert_ranked ws i [] = [i]"
| "insert_ranked ws i (j # js) =
     (if ws ! j < ws ! i \<or> (ws ! j = ws ! i \<and> i < j) then i # j # js
      else j # insert_ranked ws i js)"

definition spec_ranking :: "'w::linorder list \<Rightarrow> nat list" where
  "spec_ranking ws = foldr (insert_ranked ws) [0..<length ws] []"

definition spec_top_words :: "string list \<Rightarrow> 'w::linorder list \<Rightarrow> string list" where
  "spec_top_words feature_names ws =
     map (\<lambda>i. feature_names ! i) (take NUM_WORDS_PER_TOPIC (spec_ranking ws))"

text \<open>One block of the report: \<open>## Topic #n (count tickets)\<close> and its keywords.\<close>

record topic_summary =
  topic_index :: nat
  ticket_count :: nat
  top_keywords :: "string list"

text \<open>
  The loop \<open>for topic_idx in range(NUM_TOPICS)\<close>: the blocks printed, and the exception
  that stopped the loop, if any.
\<close>

fun report_topics ::
  "('w::linorder list \<Rightarrow> nat list) \<Rightarrow> string list \<Rightarrow> 'w list list \<Rightarrow> (nat \<rightharpoonup> nat)
     \<Rightarrow> nat list \<Rightarrow> topic_summary list \<times> exception option" where
  "report_topics argsort feature_names components counts [] = ([], None)"
| "report_topics argsort feature_names components counts (topic_idx # rest) =
     (if topic_idx < length components then
        (case top_words argsort feature_names (components ! topic_idx) of
           Inl e \<Rightarrow> ([], Some e)
         | Inr ws \<Rightarrow>
             (case report_topics argsort feature_names components counts rest of
                (out, err) \<Rightarrow>
                  (\<lparr>topic_index = topic_idx,
                    ticket_count = series_get counts topic_idx 0,
                    top_keywords = ws\<rparr> # out, err)))
      else ([], Some IndexError))"

text \<open>
  The fitted model, as far as the script reads it: \<open>lda.components_\<close> and
  \<open>lda.transform\<close>.
\<close>

record 'w lda_model =
  components :: "'w list list"
  transform :: "nat list list \<Rightarrow> 'w list list"

record run =
  outcome :: outcome
  topics :: "topic_summary list"

text \<open>
  \<open>analyze_and_count_topics\<close>. The library calls are parameters: \<open>read_csv\<close> is the
  result of loading the file, \<open>fit_transform\<close> is \<open>CountVectorizer(max_df=0.9, min_df=5,
  stop_words='english').fit_transform\<close> with the feature names it leaves, \<open>lda_fit\<close>
  is \<open>LatentDirichletAllocation(n_components=NUM_TOPICS, random_state=42).fit\<close>, and
  \<open>argsort\<close> is \<open>numpy.argsort\<close>; the first three return \<open>Inl\<close> when they raise.
\<close>

definition analyze_and_count_topics ::
  "(string list \<Rightarrow> exception + string list \<times> nat list list)
     \<Rightarrow> (nat list list \<Rightarrow> exception + ('w::linorder) lda_model)
     \<Rightarrow> ('w list \<Rightarrow> nat list)
     \<Rightarrow> exception + ticket list \<Rightarrow> run" where
  "analyze_and_count_topics fit_transform lda_fit argsort read_csv =
     (case read_csv of
        Inl e \<Rightarrow> \<lparr>outcome = SysExit None, topics = []\<rparr>
      | Inr df \<Rightarrow>
          if other_tickets df = [] then \<lparr>outcome = Returned, topics = []\<rparr>
          else
            (case fit_transform (other_tickets df) of
               Inl e \<Rightarrow> \<lparr>outcome = SysExit None, topics = []\<rparr>
             | Inr (feature_names, X) \<Rightarrow>
                 if length feature_names = 0 then \<lparr>outcome = SysExit None, topics = []\<rparr>
                 else
                   (case lda_fit X of
                      Inl e \<Rightarrow> \<lparr>outcome = SysExit None, topics = []\<rparr>
                    | Inr lda \<Rightarrow>
                        (case topic_assignments (transform lda X) of
                           Inl e \<Rightarrow> \<lparr>outcome = Uncaught e, topics = []\<rparr>
                         | Inr assignments \<Rightarrow>
                             (case report_topics argsort feature_names (components lda)
                                     (value_counts assignments) [0..<NUM_TOPICS] of
                                (out, None) \<Rightarrow> \<lparr>outcome = Returned, topics = out\<rparr>
                              | (out, Some e) \<Rightarrow> \<lparr>outcome = Uncaught e, topics = out\<rparr>)))))"

text \<open>
  Library behaviours used to run the script on examples. \<open>insertion_argsort\<close> is one
  sort that keeps the promise of \<open>numpy.argsort\<close>; on weights that are all different
  every such sort gives the same result, and on the array \<open>[1, 1]\<close> it gives
  \<open>[0, 1]\<close>.
\<close>

definition insertion_argsort :: "int list \<Rightarrow> nat list" where
  "insertion_argsort ws = sort_key (\<lambda>i. ws ! i) [0..<length ws]"

definition raising_vectorizer ::
  "string list \<Rightarrow> exception + string list \<times> nat list list" where
  "raising_vectorizer docs = Inl ValueError"

definition empty_vocabulary_vectorizer ::
  "string list \<Rightarrow> exception + string list \<times> nat list list" where
  "empty_vocabulary_vectorizer docs = Inr ([], map (\<lambda>d. []) docs)"

definition two_word_vectorizer ::
  "string list \<Rightarrow> exception + string list \<times> nat list list" where
  "two_word_vectorizer docs =
     Inr ([''bed'', ''lotion''],
          map (\<lambda>d. [if contains ''bed'' d then 1 else 0,
                     if contains ''lotion'' d then 1 else 0]) docs)"

definition example_lda :: "nat list list \<Rightarrow> exception + int lda_model" where
  "example_lda X =
     Inr \<lparr>components = replicate NUM_TOPICS [2, 1],
          transform = (\<lambda>X. map (\<lambda>d. if d = [1, 0] then [0, 2, 5, 1, 5, 0, 0, 0, 0, 0]
                                    else [1, 1, 1, 1, 1, 1, 1, 9, 1, 1]) X)\<rparr>"

definition example_df :: "ticket list" where
  "example_df =
     [\<lparr>Subject = Some ''Tanning bed'', Description = Some ''the bed is cold''\<rparr>,
      \<lparr>Subject = Some ''Cancel'', Description = None\<rparr>,
      \<lparr>Subject = None, Description = Some ''which lotion for the bed''\<rparr>]"

section \<open>PII scrubbing (extract\_chats.py)\<close>

text \<open>
  The character classes of Python's \<open>re\<close> on \<open>str\<close> patterns, for code points below
  256: \<open>\s\<close> (white space), \<open>\d\<close> (decimal digits), \<open>\w\<close> (alphanumeric characters
  and the underscore), and the set \<open>[-.\s]\<close> of the phone pattern.
\<close>

definition is_space :: "char \<Rightarrow> bool" where
  "is_space c =
     (let n = (of_char c :: nat)
      in (9 \<le> n \<and> n \<le> 13) \<or> (28 \<le> n \<and> n \<le> 32) \<or> n = 133 \<or> n = 160)"

definition is_digit :: "char \<Rightarrow> bool" where
  "is_digit c = (let n = (of_char c :: nat) in 48 \<le> n \<and> n \<le> 57)"

definition is_word :: "char \<Rightarrow> bool" where
  "is_word c =
     (let n = (of_char c :: nat)
      in (48 \<le> n \<and> n \<le> 57) \<or> (65 \<le> n \<and> n \<le> 90) \<or> n = 95 \<or> (97 \<le> n \<and> n \<le> 122)
         \<or> n = 170 \<or> n = 178 \<or> n = 179 \<or> n = 181 \<or> n = 185 \<or> n = 186
         \<or> (188 \<le> n \<and> n \<le> 190) \<or> (192 \<le> n \<and> n \<le> 214) \<or> (216 \<le> n \<and> n \<le> 246)
         \<or> (248 \<le> n \<and> n \<le> 255))"

definition is_non_space :: "char \<Rightarrow> bool" where
  "is_non_space c = (\<not> is_space c)"

definition is_separator :: "char \<Rightarrow> bool" where
  "is_separator c = (c = CHR ''-'' \<or> c = CHR ''.'' \<or> is_space c)"

definition is_at_sign :: "char \<Rightarrow> bool" where
  "is_at_sign c = (c = CHR ''@'')"

text \<open>
  A backtracking matcher in continuation style, as the \<open>re\<close> engine works: a matcher gets
  the character before the current position (\<open>None\<close> at the start of the string) and the
  rest of the string, and returns the number of characters that its first successful
  alternative consumes, the continuation included.
\<close>

type_synonym matcher = "char option \<Rightarrow> string \<Rightarrow> nat option"

text \<open>The end of the pattern.\<close>

definition rx_end :: matcher where
  "rx_end p s = Some 0"

text \<open>One character of a class.\<close>

definition rx_class :: "(char \<Rightarrow> bool) \<Rightarrow> matcher \<Rightarrow> matcher" where
  "rx_class P k p s =
     (case s of [] \<Rightarrow> None
      | c # cs \<Rightarrow> if P c then map_option Suc (k (Some c) cs) else None)"

text \<open>\<open>x?\<close>, greedy: with the character first, without it when that fails.\<close>

definition rx_opt :: "(char \<Rightarrow> bool) \<Rightarrow> matcher \<Rightarrow> matcher" where
  "rx_opt P k p s = (case rx_class P k p s of Some n \<Rightarrow> Some n | None \<Rightarrow> k p s)"

text \<open>\<open>x{n}\<close>\<close>

fun rx_repeat :: "nat \<Rightarrow> (char \<Rightarrow> bool) \<Rightarrow> matcher \<Rightarrow> matcher" where
  "rx_repeat 0 P k = k"
| "rx_repeat (Suc n) P k = rx_class P (rx_repeat n P k)"

text \<open>\<open>x+\<close>, greedy: one more character first, the continuation when that fails.\<close>

fun rx_plus :: "(char \<Rightarrow> bool) \<Rightarrow> matcher \<Rightarrow> char option \<Rightarrow> string \<Rightarrow> nat option" where
  "rx_plus P k p [] = None"
| "rx_plus P k p (c # cs) =
     (if P c then
        (case rx_plus P k (Some c) cs of
           Some n \<Rightarrow> Some (Suc n)
         | None \<Rightarrow> map_option Suc (k (Some c) cs))
      else None)"

text \<open>\<open>\b\<close>: exactly one of the two neighbours is a word character.\<close>

definition is_word_opt :: "char option \<Rightarrow> bool" where
  "is_word_opt p = (case p of None \<Rightarrow> False | Some c \<Rightarrow> is_word c)"

definition next_char :: "string \<Rightarrow> char option" where
  "next_char s = (case s of [] \<Rightarrow> None | c # cs \<Rightarrow> Some c)"

definition rx_word_boundary :: "matcher \<Rightarrow> matcher" where
  "rx_word_boundary k p s = (if is_word_opt p \<noteq> is_word_opt (next_char s) then k p s else None)"

text \<open>The pattern \<open>\S+@\S+\<close>.\<close>

definition email_re :: matcher where
  "email_re = rx_plus is_non_space (rx_class is_at_sign (rx_plus is_non_space rx_end))"

text \<open>The pattern \<open>\b\d{3}[-.\s]?\d{3}[-.\s]?\d{4}\b\<close>.\<close>

definition phone_re :: matcher where
  "phone_re =
     rx_word_boundary
       (rx_repeat 3 is_digit
         (rx_opt is_separator
           (rx_repeat 3 is_digit
             (rx_opt is_separator
               (rx_repeat 4 is_digit
                 (rx_word_boundary rx_end))))))"

text \<open>
  \<open>re.sub(pattern, repl, text)\<close>: the text is scanned from the left; where the pattern
  matches, the match is replaced and the scan goes on behind it, elsewhere the character
  is copied. Neither of the two patterns matches the empty string, so what \<open>re.sub\<close> does
  with an empty match is not modelled: the character is copied as when nothing matches.
\<close>

fun re_sub :: "matcher \<Rightarrow> string \<Rightarrow> char option \<Rightarrow> string \<Rightarrow> string" where
  "re_sub m repl p [] = []"
| "re_sub m repl p (c # cs) =
     (case m p (c # cs) of
        None \<Rightarrow> c # re_sub m repl (Some c) cs
      | Some 0 \<Rightarrow> c # re_sub m repl (Some c) cs
      | Some (Suc n) \<Rightarrow> repl @ re_sub m repl (Some (last (c # take n cs))) (drop n cs))"

text \<open>A value handed to \<open>anonymize_text\<close>: a \<open>str\<close>, or anything else.\<close>

datatype 'a py_value = Str string | NotStr 'a

definition anonymize_text :: "'a py_value \<Rightarrow> 'a py_value" where
  "anonymize_text v =
     (case v of
        NotStr x \<Rightarrow> NotStr x
      | Str s \<Rightarrow>
          (let s1 = re_sub email_re ''[EMAIL_REDACTED]'' None s;
               s2 = re_sub phone_re ''[PHONE_REDACTED]'' None s1
           in Str s2))"

text \<open>
  Auxiliary predicates. \<open>no_match m p s\<close>: the pattern matches at no position of
  \<open>s\<close>. \<open>at_window f s\<close>: somewhere in \<open>s\<close> an \<open>@\<close> stands between two characters that
  are not white space (\<open>f\<close> tells whether the character before \<open>s\<close> is one).
\<close>

fun no_match :: "matcher \<Rightarrow> char option \<Rightarrow> string \<Rightarrow> bool" where
  "no_match m p [] = True"
| "no_match m p (c # cs) = (m p (c # cs) = None \<and> no_match m (Some c) cs)"

fun at_window :: "bool \<Rightarrow> string \<Rightarrow> bool" where
  "at_window f [] = False"
| "at_window f (c # cs) =
     ((f \<and> c = CHR ''@'' \<and> (case cs of [] \<Rightarrow> False | d # ds \<Rightarrow> \<not> is_space d))
      \<or> at_window (\<not> is_space c) cs)"

text \<open>
  \<open>tail_ok n s\<close>: the first \<open>n\<close> characters of \<open>s\<close> end with a digit and no word
  character follows them. \<open>run_end n s\<close>: the first \<open>n\<close> characters of \<open>s\<close> are
  followed by white space or by the end. \<open>run_clean s\<close>: up to the next white space no
  \<open>@\<close> is followed by a character that is not white space.
\<close>

definition tail_ok :: "nat \<Rightarrow> string \<Rightarrow> bool" where
  "tail_ok n s = (0 < n \<and> n \<le> length s \<and> is_digit (last (take n s))
      \<and> \<not> is_word_opt (next_char (drop n s)))"

definition run_end :: "nat \<Rightarrow> string \<Rightarrow> bool" where
  "run_end n s = (0 < n \<and> n \<le> length s \<and> (drop n s = [] \<or> is_space (hd (drop n s))))"

fun run_clean :: "string \<Rightarrow> bool" where
  "run_clean [] = True"
| "run_clean (c # cs) =
     (is_space c \<or>
      (\<not> (c = CHR ''@'' \<and> (case cs of [] \<Rightarrow> False | d # ds \<Rightarrow> \<not> is_space d)) \<and> run_clean cs))"

section \<open>Properties of the substring test\<close>

lemma startswith_append: "startswith kw (kw @ s)"
  by (induction kw) auto

lemma startswith_iff: "startswith kw s \<longleftrightarrow> (\<exists>suf. s = kw @ suf)"
  by (induction kw s rule: startswith.induct) auto

text \<open>\<open>contains kw t\<close> holds exactly when \<open>kw\<close> occurs in \<open>t\<close> as a substring.\<close>

lemma contains_iff: "contains kw t \<longleftrightarrow> (\<exists>pre suf. t = pre @ kw @ suf)"
proof (induction t)
  case Nil
  then show ?case by auto
next
  case (Cons c cs)
  show ?case
  proof
    assume "contains kw (c # cs)"
    then consider "startswith kw (c # cs)" | "contains kw cs" by auto
    then show "\<exists>pre suf. c # cs = pre @ kw @ suf"
    proof cases
      case 1
      then obtain suf where "c # cs = kw @ suf" by (auto simp: startswith_iff)
      then have "c # cs = [] @ kw @ suf" by simp
      then show ?thesis by blast
    next
      case 2
      then obtain pre suf where "cs = pre @ kw @ suf" using Cons.IH by auto
      then have "c # cs = (c # pre) @ kw @ suf" by simp
      then show ?thesis by blast
    qed
  next
    assume "\<exists>pre suf. c # cs = pre @ kw @ suf"
    then obtain pre suf where e: "c # cs = pre @ kw @ suf" by auto
    show "contains kw (c # cs)"
    proof (cases pre)
      case Nil
      then have "startswith kw (c # cs)" using e by (auto simp: startswith_iff)
      then show ?thesis by simp
    next
      case (Cons p ps)
      then have "cs = ps @ kw @ suf" using e by simp
      then have "contains kw cs" using Cons.IH by auto
      then show ?thesis by simp
    qed
  qed
qed

lemma any_keyword_iff:
  "any_keyword kws t \<longleftrightarrow> (\<exists>k pre suf. k \<in> set kws \<and> t = pre @ k @ suf)"
  by (auto simp: any_keyword_def list_ex_iff contains_iff)

lemma any_keyword_simps:
  "any_keyword (k # ks) t = (contains k t \<or> any_keyword ks t)"
  "any_keyword [] t = False"
  by (simp_all add: any_keyword_def)

lemmas keyword_list_defs =
  cancellation_keywords_def password_keywords_def refund_keywords_def billing_keywords_def
  payment_keywords_def technical_keywords_def hours_keywords_def question_keywords_def
  plan_keywords_def product_keywords_def

lemmas category_step_defs =
  automation_category_def override_other_def override_sentiment_def
  set_agentic_workflow_def set_full_automation_def
  agentic_workflow_intents_def full_automation_intents_def

section \<open>The intent classifier and the automation category\<close>

text \<open>
  C1. Whatever the intent, a text in which one of the words angry, frustrated,
  disappointed, legal, lawsuit, complaint, escalate, manager, unresolved occurs as a
  substring gets the category Human-in-the-Loop, also where the intent alone would give
  Full Automation or Agentic Workflow.
\<close>

theorem sentiment_override_precedence:
  assumes "k \<in> set [''angry'', ''frustrated'', ''disappointed'', ''legal'', ''lawsuit'',
                      ''complaint'', ''escalate'', ''manager'', ''unresolved'']"
    and "t = pre @ k @ suf"
  shows "automation_category i t = ''Human-in-the-Loop''"
proof -
  have "human_in_the_loop_mask t"
    unfolding human_in_the_loop_mask_def any_keyword_iff human_in_the_loop_keywords_def
    using assms by blast
  then show ?thesis
    by (simp add: automation_category_def override_other_def override_sentiment_def)
qed

theorem sentiment_override_precedence_witness:
  "automation_category ''Refund Request''
      ''i am absolutely furious and want to escalate to a manager'' = ''Human-in-the-Loop''
   \<and> set_agentic_workflow ''Refund Request''
        (set_full_automation ''Refund Request'' ''Human-in-the-Loop'') = ''Agentic Workflow''"
  using sentiment_override_precedence
    [of "''escalate''" "''i am absolutely furious and want to escalate to a manager''"
        "''i am absolutely furious and want to ''" "'' to a manager''" "''Refund Request''"]
  by (simp add: category_step_defs)

text \<open>
  C2. On a lowercased text, a label other than Other returned by the reduced classifier
  \<open>map_initial_intent\<close> is the label the full classifier \<open>map_intent\<close> returns.
\<close>

theorem map_initial_intent_agrees:
  assumes "py_lower t = t" and "map_initial_intent t \<noteq> ''Other''"
  shows "map_intent t = map_initial_intent t"
  using assms by (simp add: map_intent_def map_initial_intent_def split: if_splits)

theorem map_initial_intent_agrees_witness:
  "py_lower ''please reset my account'' = ''please reset my account''
   \<and> map_initial_intent ''please reset my account'' = ''Password Reset / Login Issue''
   \<and> map_intent ''please reset my account'' = ''Password Reset / Login Issue''"
proof -
  have a: "py_lower ''please reset my account'' = ''please reset my account''"
    by code_simp
  have b: "map_initial_intent ''please reset my account'' = ''Password Reset / Login Issue''"
    by (simp add: map_initial_intent_def a keyword_list_defs any_keyword_simps)
  show ?thesis
    using map_initial_intent_agrees [OF a] a b by simp
qed

text \<open>
  C3. The rules are tried in the listed order and the first one that matches decides:
  \<open>map_intent\<close> is the first-match evaluation of the ordered rule list. The text
  "i want to cancel because i forgot my password" matches the password rule too, and is
  classified Membership Cancellation by the earlier cancellation rule.
\<close>

theorem map_intent_first_match:
  "map_intent t = first_matching_rule intent_rules t
   \<and> any_keyword password_keywords ''i want to cancel because i forgot my password''
   \<and> map_intent ''i want to cancel because i forgot my password'' = ''Membership Cancellation''"
  by (simp add: map_intent_def intent_rules_def keyword_list_defs any_keyword_simps)

theorem map_intent_first_match_witness:
  "map_intent ''my invoice has an error'' = ''Billing Inquiry''
   \<and> first_matching_rule intent_rules ''my invoice has an error'' = ''Billing Inquiry''
   \<and> any_keyword technical_keywords ''my invoice has an error''"
proof -
  have "map_intent ''my invoice has an error'' = ''Billing Inquiry''"
    by (simp add: map_intent_def keyword_list_defs any_keyword_simps)
  moreover have "any_keyword technical_keywords ''my invoice has an error''"
    by (simp add: keyword_list_defs any_keyword_simps)
  ultimately show ?thesis
    using map_intent_first_match [of "''my invoice has an error''"] by simp
qed

text \<open>
  C4. A ticket whose intent is Other gets the category Human-in-the-Loop, whatever its
  text, with or without a sentiment keyword, and in either order of the two overrides.
\<close>

theorem other_forces_human:
  "automation_category ''Other'' t = ''Human-in-the-Loop''
   \<and> override_sentiment t (override_other ''Other''
        (set_agentic_workflow ''Other''
          (set_full_automation ''Other'' ''Human-in-the-Loop''))) = ''Human-in-the-Loop''
   \<and> (map_intent t = ''Other'' \<longrightarrow>
        automation_category (map_intent t) t = ''Human-in-the-Loop'')
   \<and> (Intent (analyse_row r) = ''Other'' \<longrightarrow>
        AutomationCategory (analyse_row r) = ''Human-in-the-Loop'')"
  by (simp add: category_step_defs analyse_row_def Let_def)

theorem other_forces_human_witness:
  "map_intent ''hello there, my tanning bed is cold'' = ''Other''
   \<and> \<not> human_in_the_loop_mask ''hello there, my tanning bed is cold''
   \<and> automation_category (map_intent ''hello there, my tanning bed is cold'')
        ''hello there, my tanning bed is cold'' = ''Human-in-the-Loop''"
proof -
  have a: "map_intent ''hello there, my tanning bed is cold'' = ''Other''"
    by (simp add: map_intent_def keyword_list_defs any_keyword_simps)
  have b: "\<not> human_in_the_loop_mask ''hello there, my tanning bed is cold''"
    by (simp add: human_in_the_loop_mask_def human_in_the_loop_keywords_def any_keyword_simps)
  show ?thesis
    using other_forces_human [of "''hello there, my tanning bed is cold''"] a b by simp
qed

text \<open>
  C7. The classifier is total and single-valued: on every text \<open>map_intent\<close> returns one
  label, and it is one of the eleven defined labels (ten categories and Other).
\<close>

theorem map_intent_total:
  "map_intent t \<in> set intent_labels \<and> length intent_labels = 11 \<and> distinct intent_labels"
  by (simp add: map_intent_def intent_labels_def)

theorem map_intent_total_witness:
  "map_intent [] = ''Other'' \<and> map_intent [] \<in> set intent_labels"
proof -
  have "map_intent [] = ''Other''"
    by (simp add: map_intent_def keyword_list_defs any_keyword_simps)
  then show ?thesis
    using map_intent_total [of "[]"] by simp
qed

section \<open>Topic assignment and counting\<close>

lemma argmax_loop_bound: "best_i < i \<Longrightarrow> argmax_loop xs i best best_i < i + length xs"
proof (induction xs arbitrary: i best best_i)
  case Nil
  then show ?case by simp
next
  case (Cons x xs)
  have "argmax_loop xs (Suc i) x i < Suc i + length xs"
    by (rule Cons.IH) simp
  moreover have "argmax_loop xs (Suc i) best best_i < Suc i + length xs"
    by (rule Cons.IH) (use Cons.prems in simp)
  ultimately show ?case by simp
qed

lemma argmax_Inr: "row \<noteq> [] \<Longrightarrow> \<exists>t. argmax row = Inr t \<and> t < length row"
  using argmax_loop_bound [of 0 1] by (cases row) (auto simp: argmax_def)

text \<open>\<open>argmax\<close> returns the first index of a largest entry.\<close>

lemma argmax_loop_spec:
  assumes "best_i < length pre" "pre ! best_i = best" "\<forall>x\<in>set pre. x \<le> best"
    and "\<forall>j<best_i. pre ! j < best" and "i = length pre"
  shows "(\<forall>x\<in>set (pre @ xs). x \<le> (pre @ xs) ! argmax_loop xs i best best_i)
     \<and> (\<forall>j<argmax_loop xs i best best_i.
           (pre @ xs) ! j < (pre @ xs) ! argmax_loop xs i best best_i)"
  using assms
proof (induction xs arbitrary: i best best_i pre)
  case Nil
  then show ?case by simp
next
  case (Cons x xs)
  show ?case
  proof (cases "best < x")
    case True
    have "(\<forall>y\<in>set ((pre @ [x]) @ xs). y \<le> ((pre @ [x]) @ xs) ! argmax_loop xs (Suc i) x i)
       \<and> (\<forall>j<argmax_loop xs (Suc i) x i.
             ((pre @ [x]) @ xs) ! j < ((pre @ [x]) @ xs) ! argmax_loop xs (Suc i) x i)"
    proof (rule Cons.IH)
      show "i < length (pre @ [x])" using Cons.prems by simp
      show "(pre @ [x]) ! i = x" using Cons.prems by simp
      show "\<forall>y\<in>set (pre @ [x]). y \<le> x" using Cons.prems True by auto
      show "\<forall>j<i. (pre @ [x]) ! j < x"
      proof (intro allI impI)
        fix j assume "j < i"
        then have "pre ! j \<in> set pre" "(pre @ [x]) ! j = pre ! j"
          using Cons.prems(5) by (simp_all add: nth_append)
        then show "(pre @ [x]) ! j < x" using Cons.prems(3) True by auto
      qed
      show "Suc i = length (pre @ [x])" using Cons.prems by simp
    qed
    then show ?thesis using True by simp
  next
    case False
    have "(\<forall>y\<in>set ((pre @ [x]) @ xs). y \<le> ((pre @ [x]) @ xs) ! argmax_loop xs (Suc i) best best_i)
       \<and> (\<forall>j<argmax_loop xs (Suc i) best best_i.
             ((pre @ [x]) @ xs) ! j < ((pre @ [x]) @ xs) ! argmax_loop xs (Suc i) best best_i)"
    proof (rule Cons.IH)
      show "best_i < length (pre @ [x])" using Cons.prems by simp
      show "(pre @ [x]) ! best_i = best" using Cons.prems by (simp add: nth_append)
      show "\<forall>y\<in>set (pre @ [x]). y \<le> best" using Cons.prems False by auto
      show "\<forall>j<best_i. (pre @ [x]) ! j < best" using Cons.prems by (simp add: nth_append)
      show "Suc i = length (pre @ [x])" using Cons.prems by simp
    qed
    then show ?thesis using False by simp
  qed
qed

lemma argmax_spec:
  assumes "argmax row = Inr t"
  shows "t < length row" and "\<forall>j<length row. row ! j \<le> row ! t" and "\<forall>j<t. row ! j < row ! t"
proof -
  from assms obtain x xs where row: "row = x # xs" and t: "t = argmax_loop xs 1 x 0"
    by (cases row) (auto simp: argmax_def)
  have "(\<forall>y\<in>set ([x] @ xs). y \<le> ([x] @ xs) ! argmax_loop xs 1 x 0)
     \<and> (\<forall>j<argmax_loop xs 1 x 0. ([x] @ xs) ! j < ([x] @ xs) ! argmax_loop xs 1 x 0)"
    by (rule argmax_loop_spec) auto
  then have m: "\<forall>y\<in>set row. y \<le> row ! t" and f: "\<forall>j<t. row ! j < row ! t"
    using row t by simp_all
  show "t < length row" using argmax_Inr [of row] assms row by auto
  show "\<forall>j<length row. row ! j \<le> row ! t" using m by simp
  show "\<forall>j<t. row ! j < row ! t" by (rule f)
qed

lemma topic_assignments_ok:
  assumes "\<forall>row\<in>set dt. length row = k" "0 < k"
  shows "\<exists>a. topic_assignments dt = Inr a \<and> length a = length dt \<and> (\<forall>t\<in>set a. t < k)
     \<and> (\<forall>d<length dt. argmax (dt ! d) = Inr (a ! d))"
  using assms
proof (induction dt)
  case Nil
  then show ?case by simp
next
  case (Cons row dt)
  then obtain a where a: "topic_assignments dt = Inr a" "length a = length dt" "\<forall>t\<in>set a. t < k"
     "\<forall>d<length dt. argmax (dt ! d) = Inr (a ! d)" by auto
  from Cons.prems have "row \<noteq> []" by auto
  then obtain t where t: "argmax row = Inr t" "t < length row" using argmax_Inr by blast
  then have "t < k" using Cons.prems by auto
  then show ?case using a t by (auto simp: nth_Cons split: nat.splits)
qed

lemma sum_counts: "(\<Sum>v\<leftarrow>[0..<k]. count_list xs v) = length (filter (\<lambda>x. x < k) xs)"
proof (induction xs)
  case Nil
  then show ?case by simp
next
  case (Cons x xs)
  have one: "(\<Sum>v\<leftarrow>[0..<k]. (if x = v then 1 else 0::nat)) = (if x < k then 1 else 0)"
    by (induction k) auto
  have "(\<Sum>v\<leftarrow>[0..<k]. count_list (x # xs) v)
      = (\<Sum>v\<leftarrow>[0..<k]. (if x = v then 1 else 0) + count_list xs v)"
    by (rule arg_cong [where f = sum_list]) simp
  also have "\<dots> = (if x < k then 1 else 0) + length (filter (\<lambda>x. x < k) xs)"
    by (simp only: sum_list_addf one Cons.IH)
  finally show ?case by simp
qed

lemma series_get_value_counts: "series_get (value_counts xs) v 0 = count_list xs v"
  by (auto simp: series_get_def value_counts_def count_list_0_iff)

section \<open>Keyword ranking\<close>

lemma is_argsort_length: "is_argsort ws order \<Longrightarrow> length order = length ws"
  using distinct_card [of order] by (simp add: is_argsort_def)

lemma insertion_argsort_ok: "is_argsort ws (insertion_argsort ws)"
  by (auto simp: is_argsort_def insertion_argsort_def)

lemma top_words_Inr:
  assumes "is_argsort ws (argsort ws)" and "length ws \<le> length fn"
  shows "top_words argsort fn ws
     = Inr (map (\<lambda>i. fn ! i) (last_reversed NUM_WORDS_PER_TOPIC (argsort ws)))"
proof -
  have "set (last_reversed NUM_WORDS_PER_TOPIC (argsort ws)) \<subseteq> {..<length ws}"
    using set_take_subset [of NUM_WORDS_PER_TOPIC "rev (argsort ws)"] assms(1)
    by (simp add: last_reversed_def is_argsort_def)
  then have "list_all (\<lambda>i. i < length fn) (last_reversed NUM_WORDS_PER_TOPIC (argsort ws))"
    using assms(2) by (auto simp: list_all_iff)
  then show ?thesis by (simp add: top_words_def)
qed

lemma last_reversed_ranked:
  fixes ws :: "'w::linorder list"
  assumes "is_argsort ws order"
  defines "idx \<equiv> last_reversed NUM_WORDS_PER_TOPIC order"
  shows "length idx = min NUM_WORDS_PER_TOPIC (length ws)"
    and "distinct idx"
    and "set idx \<subseteq> {..<length ws}"
    and "sorted_wrt (\<lambda>i j. ws ! j \<le> ws ! i) idx"
    and "\<forall>i<length ws. i \<notin> set idx \<longrightarrow> (\<forall>j\<in>set idx. ws ! i \<le> ws ! j)"
proof -
  let ?r = "rev order"
  have "sorted_wrt (\<lambda>i j. ws ! i \<le> ws ! j) order"
    using assms(1) by (simp add: is_argsort_def sorted_map)
  then have s: "sorted_wrt (\<lambda>i j. ws ! j \<le> ws ! i) ?r"
    by (simp add: sorted_wrt_rev)
  have split: "?r = idx @ drop NUM_WORDS_PER_TOPIC ?r"
    by (simp add: idx_def last_reversed_def)
  show "length idx = min NUM_WORDS_PER_TOPIC (length ws)"
    using is_argsort_length [OF assms(1)] by (simp add: idx_def last_reversed_def min.commute)
  show "distinct idx"
    using assms(1) by (simp add: idx_def last_reversed_def is_argsort_def)
  show "set idx \<subseteq> {..<length ws}"
    using set_take_subset [of NUM_WORDS_PER_TOPIC ?r] assms(1)
    by (simp add: idx_def last_reversed_def is_argsort_def)
  from s split have s2: "sorted_wrt (\<lambda>i j. ws ! j \<le> ws ! i) (idx @ drop NUM_WORDS_PER_TOPIC ?r)"
    by simp
  then show "sorted_wrt (\<lambda>i j. ws ! j \<le> ws ! i) idx"
    by (simp add: sorted_wrt_append)
  show "\<forall>i<length ws. i \<notin> set idx \<longrightarrow> (\<forall>j\<in>set idx. ws ! i \<le> ws ! j)"
  proof (intro allI impI ballI)
    fix i j assume i: "i < length ws" "i \<notin> set idx" and j: "j \<in> set idx"
    have "i \<in> set ?r" using i(1) assms(1) by (simp add: is_argsort_def)
    then have "i \<in> set idx \<union> set (drop NUM_WORDS_PER_TOPIC ?r)"
      using split by (metis set_append)
    then have "i \<in> set (drop NUM_WORDS_PER_TOPIC ?r)" using i(2) by simp
    then show "ws ! i \<le> ws ! j" using s2 j by (auto simp: sorted_wrt_append)
  qed
qed

lemma report_topics_ok:
  assumes "\<forall>i\<in>set idxs. i < length comps \<and> length (comps ! i) \<le> length fn
             \<and> is_argsort (comps ! i) (argsort (comps ! i))"
  shows "\<exists>out. report_topics argsort fn comps counts idxs = (out, None)
     \<and> map topic_index out = idxs
     \<and> map ticket_count out = map (\<lambda>i. series_get counts i 0) idxs
     \<and> map (\<lambda>s. Inr (top_keywords s)) out = map (\<lambda>i. top_words argsort fn (comps ! i)) idxs"
  using assms
proof (induction idxs)
  case Nil
  then show ?case by simp
next
  case (Cons i idxs)
  then obtain out where out: "report_topics argsort fn comps counts idxs = (out, None)"
     "map topic_index out = idxs" "map ticket_count out = map (\<lambda>i. series_get counts i 0) idxs"
     "map (\<lambda>s. Inr (top_keywords s)) out = map (\<lambda>i. top_words argsort fn (comps ! i)) idxs"
    by auto
  have i: "i < length comps" "length (comps ! i) \<le> length fn"
      "is_argsort (comps ! i) (argsort (comps ! i))"
    using Cons.prems by auto
  show ?case using out i(1)
    by (simp add: top_words_Inr [where argsort = argsort and ws = "comps ! i" and fn = fn,
          OF i(3) i(2)])
qed

section \<open>The topic discovery run\<close>

text \<open>
  C6, as the code has it. The keywords reported for a topic are the
  \<open>NUM_WORDS_PER_TOPIC\<close> terms of highest weight (all terms when the vocabulary is
  smaller), in descending order of weight: the result of \<open>argsort\<close> read backwards.
  Terms of equal weight come in the order \<open>argsort\<close> leaves them, reversed; the code
  does nothing to put them in vocabulary order.
\<close>

theorem top_words_ranking:
  fixes topic_keywords :: "'w::linorder list"
  assumes "is_argsort topic_keywords (argsort topic_keywords)"
    and "length feature_names = length topic_keywords"
  shows "\<exists>idx. idx = take NUM_WORDS_PER_TOPIC (rev (argsort topic_keywords))
     \<and> top_words argsort feature_names topic_keywords = Inr (map (\<lambda>i. feature_names ! i) idx)
     \<and> length idx = min NUM_WORDS_PER_TOPIC (length topic_keywords)
     \<and> distinct idx
     \<and> (\<forall>i\<in>set idx. i < length topic_keywords)
     \<and> (\<forall>a b. a < b \<and> b < length idx \<longrightarrow>
           topic_keywords ! (idx ! b) \<le> topic_keywords ! (idx ! a))
     \<and> (\<forall>i<length topic_keywords. i \<notin> set idx \<longrightarrow>
           (\<forall>j\<in>set idx. topic_keywords ! i \<le> topic_keywords ! j))"
proof -
  let ?idx = "last_reversed NUM_WORDS_PER_TOPIC (argsort topic_keywords)"
  note r = last_reversed_ranked [OF assms(1)]
  have 0: "?idx = take NUM_WORDS_PER_TOPIC (rev (argsort topic_keywords))"
    by (simp add: last_reversed_def)
  have 1: "top_words argsort feature_names topic_keywords = Inr (map (\<lambda>i. feature_names ! i) ?idx)"
    using assms by (simp add: top_words_Inr)
  have 2: "\<forall>i\<in>set ?idx. i < length topic_keywords"
    using r(3) by auto
  have 3: "\<forall>a b. a < b \<and> b < length ?idx \<longrightarrow>
           topic_keywords ! (?idx ! b) \<le> topic_keywords ! (?idx ! a)"
    using r(4) by (simp add: sorted_wrt_iff_nth_less)
  show ?thesis
    using 0 1 r(1) r(2) 2 3 r(5) by blast
qed

theorem top_words_ranking_witness:
  "is_argsort [1::int, 3, 2, 4] (insertion_argsort [1, 3, 2, 4])
   \<and> top_words insertion_argsort [''a'', ''b'', ''c'', ''d''] [1, 3, 2, 4]
       = Inr [''d'', ''b'', ''c'', ''a'']"
proof -
  have h: "length [''a'', ''b'', ''c'', ''d''] = length [1::int, 3, 2, 4]" by simp
  have a: "is_argsort [1::int, 3, 2, 4] (insertion_argsort [1, 3, 2, 4])"
    by (rule insertion_argsort_ok)
  have v: "top_words insertion_argsort [''a'', ''b'', ''c'', ''d''] [1, 3, 2, 4]
      = Inr [''d'', ''b'', ''c'', ''a'']"
    by code_simp
  show ?thesis
    using top_words_ranking [where argsort = insertion_argsort
        and topic_keywords = "[1, 3, 2, 4]"
        and feature_names = "[''a'', ''b'', ''c'', ''d'']", OF a h] a v
    by blast
qed

text \<open>
  C6 as stated fails on ties. On the weights \<open>[1, 1]\<close> an \<open>argsort\<close> that keeps
  numpy's promise may return \<open>[0, 1]\<close>; read backwards, the later vocabulary index
  comes first, where the claim ranks the earlier index first.
\<close>

theorem top_words_tie_counterexample:
  "is_argsort [1::int, 1] (insertion_argsort [1, 1])
   \<and> insertion_argsort [1, 1] = [0, 1]
   \<and> top_words insertion_argsort [''a'', ''b''] [1, 1] = Inr [''b'', ''a'']
   \<and> spec_top_words [''a'', ''b''] [1::int, 1] = [''a'', ''b'']"
proof -
  have "is_argsort [1::int, 1] (insertion_argsort [1, 1])"
    by (rule insertion_argsort_ok)
  moreover have "insertion_argsort [1, 1] = [0, 1]"
    by code_simp
  moreover have "top_words insertion_argsort [''a'', ''b''] [1, 1] = Inr [''b'', ''a'']"
    by code_simp
  moreover have "spec_top_words [''a'', ''b''] [1::int, 1] = [''a'', ''b'']"
    by code_simp
  ultimately show ?thesis by (intro conjI)
qed

text \<open>
  C5, as the code has it. When no ticket classifies as Other the function prints a
  notice and returns; when the vectorizer raises or leaves an empty vocabulary it prints
  an error and calls \<open>sys.exit()\<close> without an argument. In both cases no topic is
  reported and the exit status is 0.
\<close>

theorem topic_discovery_halts:
  fixes lda_fit :: "nat list list \<Rightarrow> exception + ('w::linorder) lda_model"
  assumes "other_tickets df = []
           \<or> fit_transform (other_tickets df) = Inl e
           \<or> fit_transform (other_tickets df) = Inr ([], X)"
  shows "topics (analyze_and_count_topics fit_transform lda_fit argsort (Inr df)) = []
     \<and> outcome (analyze_and_count_topics fit_transform lda_fit argsort (Inr df))
         = (if other_tickets df = [] then Returned else SysExit None)
     \<and> exit_status (outcome (analyze_and_count_topics fit_transform lda_fit argsort (Inr df))) = 0"
  using assms by (auto simp: analyze_and_count_topics_def)

lemma other_tickets_example_df:
  "other_tickets example_df = [''Tanning bed the bed is cold'', '' which lotion for the bed'']"
  by code_simp

lemma other_tickets_cancel:
  "other_tickets [\<lparr>Subject = Some ''Cancel'', Description = None\<rparr>] = []"
  by code_simp

text \<open>
  C5 as stated fails: with no Other ticket, with a vectorizer that raises, and with an
  empty vocabulary, the exit status is 0, not a non-zero value.
\<close>

theorem topic_discovery_exit_counterexample:
  "exit_status (outcome (analyze_and_count_topics two_word_vectorizer example_lda
       insertion_argsort (Inr [\<lparr>Subject = Some ''Cancel'', Description = None\<rparr>]))) = 0
   \<and> exit_status (outcome (analyze_and_count_topics raising_vectorizer example_lda
       insertion_argsort (Inr example_df))) = 0
   \<and> exit_status (outcome (analyze_and_count_topics empty_vocabulary_vectorizer example_lda
       insertion_argsort (Inr example_df))) = 0"
  by (simp add: analyze_and_count_topics_def other_tickets_example_df other_tickets_cancel
      raising_vectorizer_def empty_vocabulary_vectorizer_def)

theorem topic_discovery_halts_witness:
  "outcome (analyze_and_count_topics two_word_vectorizer example_lda insertion_argsort
       (Inr [\<lparr>Subject = Some ''Cancel'', Description = None\<rparr>])) = Returned
   \<and> outcome (analyze_and_count_topics raising_vectorizer example_lda insertion_argsort
         (Inr example_df))
       = SysExit None
   \<and> outcome (analyze_and_count_topics empty_vocabulary_vectorizer example_lda
         insertion_argsort (Inr example_df))
       = SysExit None
   \<and> topics (analyze_and_count_topics empty_vocabulary_vectorizer example_lda
         insertion_argsort (Inr example_df))
       = []"
proof -
  have a: "other_tickets [\<lparr>Subject = Some ''Cancel'', Description = None\<rparr>] = []
      \<or> two_word_vectorizer (other_tickets [\<lparr>Subject = Some ''Cancel'', Description = None\<rparr>]) = Inl ValueError
      \<or> two_word_vectorizer (other_tickets [\<lparr>Subject = Some ''Cancel'', Description = None\<rparr>]) = Inr ([], [])"
    by (simp add: other_tickets_cancel)
  have b: "other_tickets example_df = []
      \<or> raising_vectorizer (other_tickets example_df) = Inl ValueError
      \<or> raising_vectorizer (other_tickets example_df) = Inr ([], [])"
    by (simp add: raising_vectorizer_def)
  have c: "other_tickets example_df = []
      \<or> empty_vocabulary_vectorizer (other_tickets example_df) = Inl ValueError
      \<or> empty_vocabulary_vectorizer (other_tickets example_df) = Inr ([], [[], []])"
    by (simp add: empty_vocabulary_vectorizer_def other_tickets_example_df)
  show ?thesis
    using
      topic_discovery_halts [where df = "[\<lparr>Subject = Some ''Cancel'', Description = None\<rparr>]"
        and fit_transform = two_word_vectorizer and lda_fit = example_lda
        and argsort = insertion_argsort, OF a]
      topic_discovery_halts [where df = example_df and fit_transform = raising_vectorizer
        and lda_fit = example_lda and argsort = insertion_argsort, OF b]
      topic_discovery_halts [where df = example_df
        and fit_transform = empty_vocabulary_vectorizer and lda_fit = example_lda
        and argsort = insertion_argsort, OF c]
    by (simp add: other_tickets_example_df other_tickets_cancel)
qed

text \<open>
  C8. When the library calls succeed and return arrays of the documented shapes (one
  row of \<open>NUM_TOPICS\<close> weights per Other ticket, one row of term weights per topic, an
  \<open>argsort\<close> that keeps its promise), every Other ticket is assigned one topic, the
  \<open>argmax\<close> of its row: no topic of the row has a larger weight, and every topic before
  it has a smaller one. The report lists the topic indices 0 to \<open>NUM_TOPICS - 1\<close>, each
  with the number of tickets assigned to it (0 when there is none), and the counts add
  up to the number of Other tickets.
\<close>

theorem topic_counts_conserved:
  fixes lda :: "('w::linorder) lda_model"
  assumes "other_tickets df \<noteq> []"
    and "fit_transform (other_tickets df) = Inr (feature_names, X)"
    and "feature_names \<noteq> []"
    and "lda_fit X = Inr lda"
    and "length (transform lda X) = length (other_tickets df)"
    and "\<forall>row\<in>set (transform lda X). length row = NUM_TOPICS"
    and "length (components lda) = NUM_TOPICS"
    and "\<forall>w\<in>set (components lda). length w = length feature_names \<and> is_argsort w (argsort w)"
  shows "\<exists>assignments.
       topic_assignments (transform lda X) = Inr assignments
     \<and> length assignments = length (other_tickets df)
     \<and> (\<forall>d<length assignments. assignments ! d < NUM_TOPICS
           \<and> (\<forall>j<NUM_TOPICS. transform lda X ! d ! j \<le> transform lda X ! d ! (assignments ! d))
           \<and> (\<forall>j<assignments ! d.
                 transform lda X ! d ! j < transform lda X ! d ! (assignments ! d)))
     \<and> outcome (analyze_and_count_topics fit_transform lda_fit argsort (Inr df)) = Returned
     \<and> map topic_index (topics (analyze_and_count_topics fit_transform lda_fit argsort (Inr df)))
         = [0..<NUM_TOPICS]
     \<and> map ticket_count (topics (analyze_and_count_topics fit_transform lda_fit argsort (Inr df)))
         = map (count_list assignments) [0..<NUM_TOPICS]
     \<and> sum_list (map ticket_count
           (topics (analyze_and_count_topics fit_transform lda_fit argsort (Inr df))))
         = length (other_tickets df)"
proof -
  let ?dt = "transform lda X"
  have k: "0 < NUM_TOPICS" by (simp add: NUM_TOPICS_def)
  from topic_assignments_ok [OF assms(6) k]
  obtain a where a: "topic_assignments ?dt = Inr a"
      "length a = length ?dt" "\<forall>t\<in>set a. t < NUM_TOPICS"
      "\<forall>d<length ?dt. argmax (?dt ! d) = Inr (a ! d)"
    by blast
  have "\<forall>i\<in>set [0..<NUM_TOPICS]. i < length (components lda)
      \<and> length (components lda ! i) \<le> length feature_names
      \<and> is_argsort (components lda ! i) (argsort (components lda ! i))"
    using assms(7,8) by simp
  from report_topics_ok [OF this, of "value_counts a"]
  obtain out where out:
     "report_topics argsort feature_names (components lda) (value_counts a) [0..<NUM_TOPICS] = (out, None)"
     "map topic_index out = [0..<NUM_TOPICS]"
     "map ticket_count out = map (\<lambda>i. series_get (value_counts a) i 0) [0..<NUM_TOPICS]"
    by blast
  have run: "analyze_and_count_topics fit_transform lda_fit argsort (Inr df)
      = \<lparr>outcome = Returned, topics = out\<rparr>"
    using assms(1-4) a(1) out(1) by (simp add: analyze_and_count_topics_def)
  have counts: "map ticket_count out = map (count_list a) [0..<NUM_TOPICS]"
    using out(3) by (simp add: series_get_value_counts)
  have "filter (\<lambda>x. x < NUM_TOPICS) a = a" using a(3) by (simp add: filter_id_conv)
  then have total: "sum_list (map ticket_count out) = length a"
    using counts sum_counts [of a NUM_TOPICS] by simp
  have each: "\<forall>d<length a. a ! d < NUM_TOPICS
       \<and> (\<forall>j<NUM_TOPICS. ?dt ! d ! j \<le> ?dt ! d ! (a ! d))
       \<and> (\<forall>j<a ! d. ?dt ! d ! j < ?dt ! d ! (a ! d))"
  proof (intro allI impI)
    fix d assume d: "d < length a"
    then have m: "argmax (?dt ! d) = Inr (a ! d)" using a(2,4) by simp
    have len: "length (?dt ! d) = NUM_TOPICS" using d a(2) assms(6) by simp
    show "a ! d < NUM_TOPICS
       \<and> (\<forall>j<NUM_TOPICS. ?dt ! d ! j \<le> ?dt ! d ! (a ! d))
       \<and> (\<forall>j<a ! d. ?dt ! d ! j < ?dt ! d ! (a ! d))"
      using argmax_spec [OF m] len by simp
  qed
  show ?thesis
    using a(1,2) assms(5) run out(2) counts total each by simp
qed

theorem topic_counts_conserved_witness:
  "topic_assignments [[0, 2, 5, 1, 5, 0, 0, 0, 0, 0], [1, 1, 1, 1, 1, 1, 1, 9, 1, 1 :: int]]
     = Inr [2, 7]
   \<and> map ticket_count (topics (analyze_and_count_topics two_word_vectorizer example_lda
         insertion_argsort (Inr example_df)))
     = [0, 0, 1, 0, 0, 0, 0, 1, 0, 0]
   \<and> length (other_tickets example_df) = 2"
proof -
  let ?lda = "\<lparr>components = replicate NUM_TOPICS [2::int, 1],
          transform = (\<lambda>X. map (\<lambda>d. if d = [1, 0] then [0, 2, 5, 1, 5, 0, 0, 0, 0, 0]
                                    else [1, 1, 1, 1, 1, 1, 1, 9, 1, 1]) X)\<rparr>"
  let ?X = "[[1, 0], [1, 1::nat]]"
  have 1: "other_tickets example_df \<noteq> []" by (simp add: other_tickets_example_df)
  have 2: "two_word_vectorizer (other_tickets example_df) = Inr ([''bed'', ''lotion''], ?X)"
    by (simp add: other_tickets_example_df two_word_vectorizer_def)
  have 3: "[''bed'', ''lotion''] \<noteq> []" by simp
  have 4: "example_lda ?X = Inr ?lda" by (simp add: example_lda_def)
  have 5: "length (transform ?lda ?X) = length (other_tickets example_df)"
    by (simp add: other_tickets_example_df)
  have 6: "\<forall>row\<in>set (transform ?lda ?X). length row = NUM_TOPICS" by (simp add: NUM_TOPICS_def)
  have 7: "length (components ?lda) = NUM_TOPICS" by simp
  have 8: "\<forall>w\<in>set (components ?lda). length w = length [''bed'', ''lotion'']
      \<and> is_argsort w (insertion_argsort w)"
    by (simp add: insertion_argsort_ok)
  have t: "transform ?lda ?X
      = [[0, 2, 5, 1, 5, 0, 0, 0, 0, 0], [1, 1, 1, 1, 1, 1, 1, 9, 1, 1]]"
    by simp
  have v: "map ticket_count (topics (analyze_and_count_topics two_word_vectorizer example_lda
         insertion_argsort (Inr example_df)))
     = [0, 0, 1, 0, 0, 0, 0, 1, 0, 0]"
    by code_simp
  have w: "topic_assignments [[0, 2, 5, 1, 5, 0, 0, 0, 0, 0], [1, 1, 1, 1, 1, 1, 1, 9, 1, 1 :: int]]
     = Inr [2, 7]"
    by code_simp
  show ?thesis
    using topic_counts_conserved [where df = example_df and fit_transform = two_word_vectorizer
        and lda_fit = example_lda and lda = ?lda and X = ?X and argsort = insertion_argsort
        and feature_names = "[''bed'', ''lotion'']", OF 1 2 3 4 5 6 7 8] v w
    by (simp add: other_tickets_example_df)
qed

section \<open>Properties of the scrubber\<close>

subsection \<open>Character classes\<close>

lemma digit_is_word: "is_digit c \<Longrightarrow> is_word c"
  by (auto simp: is_digit_def is_word_def Let_def)

lemma digit_not_space: "is_digit c \<Longrightarrow> \<not> is_space c"
  by (auto simp: is_digit_def is_space_def Let_def)

lemma digit_not_separator: "is_digit c \<Longrightarrow> \<not> is_separator c"
  by (auto simp: is_digit_def is_separator_def is_space_def Let_def)

lemma bracket_not_digit: "\<not> is_digit (CHR ''['')"
  by (simp add: is_digit_def)

lemma bracket_not_separator: "\<not> is_separator (CHR ''['')"
  by (simp add: is_separator_def is_space_def)

subsection \<open>The combinators\<close>

lemma rx_class_Nil [simp]: "rx_class P k p [] = None"
  by (simp add: rx_class_def)

lemma rx_class_Cons [simp]:
  "rx_class P k p (c # cs) = (if P c then map_option Suc (k (Some c) cs) else None)"
  by (simp add: rx_class_def)

lemma rx_class_SomeD:
  "rx_class P k p s = Some n \<Longrightarrow> \<exists>c cs n'. s = c # cs \<and> P c \<and> k (Some c) cs = Some n' \<and> n = Suc n'"
  by (cases s) (auto split: if_splits)

lemma rx_opt_SomeD:
  "rx_opt P k p s = Some n \<Longrightarrow> rx_class P k p s = Some n \<or> (rx_class P k p s = None \<and> k p s = Some n)"
  by (auto simp: rx_opt_def split: option.splits)

lemma rx_word_boundary_Some:
  "rx_word_boundary k p s = Some n \<longleftrightarrow> is_word_opt p \<noteq> is_word_opt (next_char s) \<and> k p s = Some n"
  by (simp add: rx_word_boundary_def)

lemma next_char_simps [simp]: "next_char [] = None" "next_char (c # cs) = Some c"
  by (simp_all add: next_char_def)

lemma is_word_opt_simps [simp]: "is_word_opt None = False" "is_word_opt (Some c) = is_word c"
  by (simp_all add: is_word_opt_def)

subsection \<open>What a phone match looks like\<close>

lemma tail_ok_Cons: "tail_ok n cs \<Longrightarrow> tail_ok (Suc n) (c # cs)"
  by (cases cs; cases n) (auto simp: tail_ok_def)

lemma tail_ok_class:
  assumes "\<And>q s n. k q s = Some n \<Longrightarrow> tail_ok n s"
  shows "rx_class P k q s = Some n \<Longrightarrow> tail_ok n s"
  using assms by (auto dest!: rx_class_SomeD intro: tail_ok_Cons)

lemma tail_ok_opt:
  assumes "\<And>q s n. k q s = Some n \<Longrightarrow> tail_ok n s"
  shows "rx_opt P k q s = Some n \<Longrightarrow> tail_ok n s"
  using assms tail_ok_class [of k P q s n] by (auto dest!: rx_opt_SomeD)

lemma tail_ok_repeat:
  assumes "\<And>q s n. k q s = Some n \<Longrightarrow> tail_ok n s"
  shows "rx_repeat m P k q s = Some n \<Longrightarrow> tail_ok n s"
proof (induction m arbitrary: q s n)
  case 0
  then show ?case using assms by simp
next
  case (Suc m)
  then show ?case using tail_ok_class [of "rx_repeat m P k" P q s n] by simp
qed

lemma tail_ok_last_digit:
  "rx_class is_digit (rx_word_boundary rx_end) q s = Some n \<Longrightarrow> tail_ok n s"
  by (auto dest!: rx_class_SomeD simp: rx_word_boundary_Some rx_end_def tail_ok_def digit_is_word)

lemma rx_repeat_shift: "rx_repeat (Suc m) P k = rx_repeat m P (rx_class P k)"
  by (induction m) auto

lemma phone_tail4: "rx_repeat 4 is_digit (rx_word_boundary rx_end) q s = Some n \<Longrightarrow> tail_ok n s"
proof -
  have e: "rx_repeat 4 is_digit (rx_word_boundary rx_end)
      = rx_repeat 3 is_digit (rx_class is_digit (rx_word_boundary rx_end))"
    using rx_repeat_shift [of 3 is_digit "rx_word_boundary rx_end"] by (simp add: eval_nat_numeral)
  show "rx_repeat 4 is_digit (rx_word_boundary rx_end) q s = Some n \<Longrightarrow> tail_ok n s"
    unfolding e by (rule tail_ok_repeat [OF tail_ok_last_digit])
qed

lemma phone_re_SomeD:
  assumes "phone_re p s = Some n"
  shows "\<not> is_word_opt p" and "tail_ok n s" and "\<exists>c cs. s = c # cs \<and> is_digit c"
proof -
  let ?body = "rx_repeat 3 is_digit (rx_opt is_separator (rx_repeat 3 is_digit
      (rx_opt is_separator (rx_repeat 4 is_digit (rx_word_boundary rx_end)))))"
  from assms have b: "is_word_opt p \<noteq> is_word_opt (next_char s)" "?body p s = Some n"
    by (simp_all add: phone_re_def rx_word_boundary_Some)
  from b(2) show 3: "\<exists>c cs. s = c # cs \<and> is_digit c"
    by (auto simp: eval_nat_numeral dest!: rx_class_SomeD)
  with b(1) show "\<not> is_word_opt p" by (auto simp: digit_is_word)
  show "tail_ok n s"
    by (rule tail_ok_repeat [OF _ b(2)], rule tail_ok_opt, rule tail_ok_repeat, rule tail_ok_opt,
        rule phone_tail4)
qed

lemma phone_re_non_digit: "\<not> is_digit c \<Longrightarrow> phone_re p (c # cs) = None"
  using phone_re_SomeD(3) [of p "c # cs"] by (cases "phone_re p (c # cs)") auto

lemma phone_re_after_word: "is_word_opt p \<Longrightarrow> phone_re p s = None"
  using phone_re_SomeD(1) [of p s] by (cases "phone_re p s") auto

lemma phone_re_Nil: "phone_re p [] = None"
  using phone_re_SomeD(3) [of p "[]"] by (cases "phone_re p []") auto

subsection \<open>re_sub\<close>

lemma re_sub_no_match: "no_match m p s \<Longrightarrow> re_sub m repl p s = s"
  by (induction s arbitrary: p) auto

lemma re_sub_phone_Cons:
  "re_sub phone_re repl p (c # cs) =
     (case phone_re p (c # cs) of
        None \<Rightarrow> c # re_sub phone_re repl (Some c) cs
      | Some n \<Rightarrow> repl @ re_sub phone_re repl (Some (last (take n (c # cs)))) (drop n (c # cs)))"
proof (cases "phone_re p (c # cs)")
  case None
  then show ?thesis by simp
next
  case (Some n)
  then have "0 < n" using phone_re_SomeD(2) by (auto simp: tail_ok_def)
  then obtain k where "n = Suc k" by (cases n) auto
  then show ?thesis using Some by simp
qed

text \<open>The first character of the result, when the replacement starts with a bracket.\<close>

lemma re_sub_phone_head:
  assumes "re_sub phone_re (CHR ''['' # repl) p s = e # r" and "e \<noteq> CHR ''[''"
  shows "\<exists>cs. s = e # cs \<and> phone_re p s = None \<and> r = re_sub phone_re (CHR ''['' # repl) (Some e) cs"
proof (cases s)
  case Nil
  then show ?thesis using assms by simp
next
  case (Cons c cs)
  show ?thesis
  proof (cases "phone_re p (c # cs)")
    case None
    then show ?thesis using assms Cons by (auto simp: re_sub_phone_Cons simp del: re_sub.simps(2))
  next
    case (Some n)
    then show ?thesis using assms Cons by (auto simp: re_sub_phone_Cons simp del: re_sub.simps(2))
  qed
qed

lemma re_sub_phone_Nil_iff: "re_sub phone_re (CHR ''['' # repl) p s = [] \<longleftrightarrow> s = []"
  by (cases s) (auto simp: re_sub_phone_Cons simp del: re_sub.simps(2) split: option.splits)

subsection \<open>A match in the result is a match in the input\<close>

lemma stable_end:
  assumes "is_word_opt q"
    and "rx_word_boundary rx_end q (re_sub phone_re (CHR ''['' # repl) q cs) = Some n"
  shows "rx_word_boundary rx_end q cs = Some n"
proof (cases cs)
  case Nil
  then show ?thesis using assms by simp
next
  case (Cons c cs')
  have "phone_re q (c # cs') = None" using assms(1) by (rule phone_re_after_word)
  then show ?thesis using assms Cons
    by (simp add: re_sub_phone_Cons rx_word_boundary_Some rx_end_def del: re_sub.simps(2))
qed

lemma stable_class:
  assumes "\<And>c. P c \<Longrightarrow> c \<noteq> CHR ''[''"
    and "\<And>c cs n. P c \<Longrightarrow> k (Some c) (re_sub phone_re (CHR ''['' # repl) (Some c) cs) = Some n
           \<Longrightarrow> k (Some c) cs = Some n"
    and "rx_class P k q (re_sub phone_re (CHR ''['' # repl) q cs) = Some n"
  shows "rx_class P k q cs = Some n"
proof -
  from rx_class_SomeD [OF assms(3)]
  obtain e r n' where e: "re_sub phone_re (CHR ''['' # repl) q cs = e # r" "P e"
      "k (Some e) r = Some n'" "n = Suc n'"
    by blast
  have "e \<noteq> CHR ''[''" using e(2) by (rule assms(1))
  from re_sub_phone_head [OF e(1) this] obtain cs' where cs: "cs = e # cs'"
      "r = re_sub phone_re (CHR ''['' # repl) (Some e) cs'" by blast
  have "k (Some e) cs' = Some n'"
    using e(2) e(3) [unfolded cs(2)] by (rule assms(2))
  then show ?thesis using cs(1) e(2,4) by simp
qed

lemma stable_repeat:
  assumes "\<And>c. P c \<Longrightarrow> c \<noteq> CHR ''[''"
    and "\<And>q cs n. k q (re_sub phone_re (CHR ''['' # repl) q cs) = Some n \<Longrightarrow> k q cs = Some n"
  shows "rx_repeat m P k q (re_sub phone_re (CHR ''['' # repl) q cs) = Some n
     \<Longrightarrow> rx_repeat m P k q cs = Some n"
proof (induction m arbitrary: q cs n)
  case 0
  then have "k q (re_sub phone_re (CHR ''['' # repl) q cs) = Some n" by simp
  then have "k q cs = Some n" by (rule assms(2))
  then show ?case by simp
next
  case (Suc m)
  have a: "c \<noteq> CHR ''[''" if "P c" for c using that by (rule assms(1))
  have b: "rx_repeat m P k (Some c) cs = Some n"
    if "P c" "rx_repeat m P k (Some c) (re_sub phone_re (CHR ''['' # repl) (Some c) cs) = Some n"
    for c cs n
    using that(2) by (rule Suc.IH)
  have "rx_class P (rx_repeat m P k) q (re_sub phone_re (CHR ''['' # repl) q cs) = Some n"
    using Suc.prems by simp
  with a b have "rx_class P (rx_repeat m P k) q cs = Some n" by (rule stable_class)
  then show ?case by simp
qed

lemma stable_opt:
  assumes "\<And>c. P c \<Longrightarrow> c \<noteq> CHR ''[''"
    and "\<And>q cs n. k q (re_sub phone_re (CHR ''['' # repl) q cs) = Some n \<Longrightarrow> k q cs = Some n"
    and "\<And>q s n. k q s = Some n \<Longrightarrow> \<exists>c cs. s = c # cs \<and> \<not> P c"
    and "rx_opt P k q (re_sub phone_re (CHR ''['' # repl) q cs) = Some n"
  shows "rx_opt P k q cs = Some n"
proof -
  from rx_opt_SomeD [OF assms(4)]
  consider "rx_class P k q (re_sub phone_re (CHR ''['' # repl) q cs) = Some n"
    | "k q (re_sub phone_re (CHR ''['' # repl) q cs) = Some n" by blast
  then show ?thesis
  proof cases
    case 1
    then have "rx_class P k q cs = Some n"
      using stable_class [of P k repl q cs n] assms(1,2) by blast
    then show ?thesis by (simp add: rx_opt_def)
  next
    case 2
    then have k: "k q cs = Some n" using assms(2) by blast
    then obtain c cs' where "cs = c # cs'" "\<not> P c" using assms(3) by blast
    then show ?thesis using k by (simp add: rx_opt_def)
  qed
qed

lemma repeat_digit_head:
  assumes "0 < m" and "rx_repeat m is_digit k q s = Some n"
  shows "\<exists>c cs. s = c # cs \<and> \<not> is_separator c"
proof -
  from assms(1) obtain m' where "m = Suc m'" by (cases m) auto
  then have "rx_class is_digit (rx_repeat m' is_digit k) q s = Some n" using assms(2) by simp
  from rx_class_SomeD [OF this] show ?thesis by (auto simp: digit_not_separator)
qed

lemma stable_tail4:
  assumes "rx_repeat 4 is_digit (rx_word_boundary rx_end) q (re_sub phone_re (CHR ''['' # repl) q cs) = Some n"
  shows "rx_repeat 4 is_digit (rx_word_boundary rx_end) q cs = Some n"
proof -
  let ?k = "rx_class is_digit (rx_word_boundary rx_end)"
  have e: "rx_repeat 4 is_digit (rx_word_boundary rx_end) = rx_repeat 3 is_digit ?k"
    using rx_repeat_shift [of 3 is_digit "rx_word_boundary rx_end"] by (simp add: eval_nat_numeral)
  have d: "c \<noteq> CHR ''[''" if "is_digit c" for c using that bracket_not_digit by auto
  have w: "rx_word_boundary rx_end (Some c) cs = Some n"
    if "is_digit c" "rx_word_boundary rx_end (Some c) (re_sub phone_re (CHR ''['' # repl) (Some c) cs) = Some n"
    for c cs n
    by (rule stable_end [OF _ that(2)]) (simp add: digit_is_word that(1))
  have last: "?k q cs = Some n" if "?k q (re_sub phone_re (CHR ''['' # repl) q cs) = Some n" for q cs n
    using d w that by (rule stable_class)
  have "rx_repeat 3 is_digit ?k q cs = Some n"
    using d last assms [unfolded e] by (rule stable_repeat)
  then show ?thesis by (simp only: e)
qed

lemma stable_body:
  fixes repl :: string
  defines "k3 \<equiv> rx_repeat 4 is_digit (rx_word_boundary rx_end)"
  defines "k2 \<equiv> rx_repeat 3 is_digit (rx_opt is_separator k3)"
  defines "k1 \<equiv> rx_opt is_separator k2"
  assumes "rx_repeat m is_digit k1 q (re_sub phone_re (CHR ''['' # repl) q cs) = Some n"
  shows "rx_repeat m is_digit k1 q cs = Some n"
proof -
  have d: "c \<noteq> CHR ''[''" if "is_digit c" for c using that bracket_not_digit by auto
  have s: "c \<noteq> CHR ''[''" if "is_separator c" for c using that bracket_not_separator by auto
  have t3: "k3 q cs = Some n" if "k3 q (re_sub phone_re (CHR ''['' # repl) q cs) = Some n" for q cs n
    using that unfolding k3_def by (rule stable_tail4)
  have h3: "\<exists>c cs. s = c # cs \<and> \<not> is_separator c" if "k3 q s = Some n" for q s n
    using repeat_digit_head [OF _ that [unfolded k3_def]] by simp
  have o3: "rx_opt is_separator k3 q cs = Some n"
    if "rx_opt is_separator k3 q (re_sub phone_re (CHR ''['' # repl) q cs) = Some n" for q cs n
    using s t3 h3 that by (rule stable_opt)
  have t2: "k2 q cs = Some n" if "k2 q (re_sub phone_re (CHR ''['' # repl) q cs) = Some n" for q cs n
    using d o3 that unfolding k2_def by (rule stable_repeat)
  have h2: "\<exists>c cs. s = c # cs \<and> \<not> is_separator c" if "k2 q s = Some n" for q s n
    using repeat_digit_head [OF _ that [unfolded k2_def]] by simp
  have t1: "k1 q cs = Some n" if "k1 q (re_sub phone_re (CHR ''['' # repl) q cs) = Some n" for q cs n
    using s t2 h2 that unfolding k1_def by (rule stable_opt)
  show ?thesis using d t1 assms(4) by (rule stable_repeat)
qed

lemma phone_re_transfer:
  assumes "phone_re p (c # re_sub phone_re (CHR ''['' # repl) (Some c) cs) = Some n"
  shows "phone_re p (c # cs) = Some n"
proof -
  let ?k1 = "rx_opt is_separator (rx_repeat 3 is_digit
      (rx_opt is_separator (rx_repeat 4 is_digit (rx_word_boundary rx_end))))"
  let ?r = "re_sub phone_re (CHR ''['' # repl) (Some c) cs"
  have e: "phone_re = rx_word_boundary (rx_class is_digit (rx_repeat 2 is_digit ?k1))"
    by (simp add: phone_re_def eval_nat_numeral)
  from assms have w: "is_word_opt p \<noteq> is_word c" and d: "is_digit c"
    and "map_option Suc (rx_repeat 2 is_digit ?k1 (Some c) ?r) = Some n"
    unfolding e by (auto simp: rx_word_boundary_Some split: if_splits)
  then obtain n' where n': "rx_repeat 2 is_digit ?k1 (Some c) ?r = Some n'" "n = Suc n'"
    by auto
  have "rx_repeat 2 is_digit ?k1 (Some c) cs = Some n'"
    using n'(1) by (rule stable_body)
  then show ?thesis unfolding e using w d n'(2) by (simp add: rx_word_boundary_Some)
qed

subsection \<open>No phone match is left\<close>

lemma no_match_phone_prev:
  "s = [] \<or> \<not> is_digit (hd s) \<Longrightarrow> no_match phone_re p s \<Longrightarrow> no_match phone_re q s"
  by (cases s) (auto simp: phone_re_non_digit)

lemma no_match_phone_prefix:
  assumes "\<forall>c\<in>set u. \<not> is_digit c" and "u \<noteq> []" and "no_match phone_re (Some (last u)) r"
  shows "no_match phone_re p (u @ r)"
  using assms
proof (induction u arbitrary: p)
  case Nil
  then show ?case by simp
next
  case (Cons a u)
  show ?case
  proof (cases "u = []")
    case True
    then show ?thesis using Cons.prems by (simp add: phone_re_non_digit)
  next
    case False
    then have "no_match phone_re (Some a) (u @ r)" using Cons by simp
    then show ?thesis using Cons.prems by (simp add: phone_re_non_digit)
  qed
qed

lemma re_sub_phone_no_match_gen:
  assumes "\<forall>c\<in>set repl. \<not> is_digit c"
  shows "no_match phone_re p (re_sub phone_re (CHR ''['' # repl) p y)"
proof (induction y arbitrary: p rule: length_induct)
  case (1 y)
  let ?ph = "CHR ''['' # repl"
  show ?case
  proof (cases y)
    case Nil
    then show ?thesis by simp
  next
    case (Cons c cs)
    show ?thesis
    proof (cases "phone_re p (c # cs)")
      case None
      let ?r = "re_sub phone_re ?ph (Some c) cs"
      have r: "no_match phone_re (Some c) ?r" using 1 Cons by simp
      have "phone_re p (c # ?r) = None"
      proof (cases "phone_re p (c # ?r)")
        case (Some n)
        then have "phone_re p (c # cs) = Some n" by (rule phone_re_transfer)
        then show ?thesis using None by simp
      qed simp
      moreover have "re_sub phone_re ?ph p y = c # ?r"
        using None Cons by (simp add: re_sub_phone_Cons del: re_sub.simps(2))
      ultimately show ?thesis using r by simp
    next
      case (Some n)
      let ?rest = "drop n (c # cs)"
      let ?l = "last (take n (c # cs))"
      let ?r = "re_sub phone_re ?ph (Some ?l) ?rest"
      from phone_re_SomeD(2) [OF Some] have t: "0 < n" "\<not> is_word_opt (next_char ?rest)"
        by (auto simp: tail_ok_def)
      then have "length ?rest < length y" using Cons by simp
      then have ih: "no_match phone_re (Some ?l) ?r" using 1 by blast
      have "?r = [] \<or> \<not> is_digit (hd ?r)"
      proof (cases ?rest)
        case Nil
        then show ?thesis by simp
      next
        case (Cons e es)
        then have "\<not> is_digit e" using t(2) digit_is_word by auto
        then show ?thesis using Cons
          by (simp add: re_sub_phone_Cons phone_re_non_digit del: re_sub.simps(2))
      qed
      then have "no_match phone_re (Some (last ?ph)) ?r"
        using ih by (rule no_match_phone_prev)
      then have "no_match phone_re p (?ph @ ?r)"
        using assms by (intro no_match_phone_prefix) (simp_all add: bracket_not_digit)
      moreover have "re_sub phone_re ?ph p y = ?ph @ ?r"
        using Some Cons by (simp add: re_sub_phone_Cons del: re_sub.simps(2))
      ultimately show ?thesis by (simp only:)
    qed
  qed
qed

lemma re_sub_phone_no_match:
  "no_match phone_re p (re_sub phone_re ''[PHONE_REDACTED]'' p y)"
  by (rule re_sub_phone_no_match_gen) (simp add: is_digit_def)

subsection \<open>What an email match looks like\<close>

lemma run_end_Cons: "run_end n cs \<Longrightarrow> run_end (Suc n) (c # cs)"
  by (simp add: run_end_def)

lemma plus_end_Cons:
  "rx_plus is_non_space rx_end q (c # cs) =
     (if is_space c then None
      else (case rx_plus is_non_space rx_end (Some c) cs of
              Some n \<Rightarrow> Some (Suc n) | None \<Rightarrow> Some 1))"
  by (simp add: is_non_space_def rx_end_def split: option.splits)

lemma plus_end_None:
  "rx_plus is_non_space rx_end q s = None \<Longrightarrow> s = [] \<or> is_space (hd s)"
  by (cases s) (auto simp: plus_end_Cons simp del: rx_plus.simps(2) split: option.splits if_splits)

lemma plus_end_Some:
  "rx_plus is_non_space rx_end q s = Some n
   \<Longrightarrow> run_end n s \<and> (\<exists>c cs. s = c # cs \<and> \<not> is_space c)"
proof (induction s arbitrary: q n)
  case Nil
  then show ?case by simp
next
  case (Cons c cs)
  then have c: "\<not> is_space c"
    by (auto simp: plus_end_Cons simp del: rx_plus.simps(2) split: if_splits)
  show ?case
  proof (cases "rx_plus is_non_space rx_end (Some c) cs")
    case None
    then have "n = 1" using Cons.prems c by (simp add: plus_end_Cons del: rx_plus.simps(2))
    moreover have "cs = [] \<or> is_space (hd cs)" using None by (rule plus_end_None)
    ultimately show ?thesis using c by (auto simp: run_end_def)
  next
    case (Some n')
    then have "n = Suc n'" using Cons.prems c by (simp add: plus_end_Cons del: rx_plus.simps(2))
    moreover have "run_end n' cs" using Cons.IH [OF Some] by simp
    ultimately show ?thesis using c by (simp add: run_end_Cons)
  qed
qed

lemma email_re_Cons:
  "email_re p (c # cs) =
     (if is_space c then None
      else (case email_re (Some c) cs of
              Some n \<Rightarrow> Some (Suc n)
            | None \<Rightarrow>
                map_option Suc (rx_class is_at_sign (rx_plus is_non_space rx_end) (Some c) cs)))"
  by (simp add: email_re_def is_non_space_def)

lemma email_re_Nil: "email_re p [] = None"
  by (simp add: email_re_def)

lemma email_re_SomeD:
  "email_re p s = Some n
   \<Longrightarrow> run_end n s \<and> (\<exists>c cs. s = c # cs \<and> \<not> is_space c) \<and> at_window f s"
proof (induction s arbitrary: p n f)
  case Nil
  then show ?case by (simp add: email_re_Nil)
next
  case (Cons c cs)
  then have c: "\<not> is_space c" by (auto simp: email_re_Cons split: if_splits)
  show ?case
  proof (cases "email_re (Some c) cs")
    case (Some n')
    then have n: "n = Suc n'" using Cons.prems c by (simp add: email_re_Cons)
    from Cons.IH [OF Some, of "\<not> is_space c"]
    have "run_end n' cs" "at_window (\<not> is_space c) cs" by simp_all
    then show ?thesis using n c by (simp add: run_end_Cons)
  next
    case None
    then have "map_option Suc (rx_class is_at_sign (rx_plus is_non_space rx_end) (Some c) cs) = Some n"
      using Cons.prems c by (simp add: email_re_Cons)
    then obtain n' where k: "rx_class is_at_sign (rx_plus is_non_space rx_end) (Some c) cs = Some n'"
        "n = Suc n'" by auto
    from rx_class_SomeD [OF k(1)] obtain a cs' n'' where a: "cs = a # cs'" "is_at_sign a"
        "rx_plus is_non_space rx_end (Some a) cs' = Some n''" "n' = Suc n''" by blast
    from plus_end_Some [OF a(3)] obtain d ds where d: "run_end n'' cs'" "cs' = d # ds" "\<not> is_space d"
      by blast
    have "run_end n (c # cs)" using d(1) a(1,4) k(2) by (simp add: run_end_Cons)
    moreover have "at_window f (c # cs)" using a(1,2) d(2,3) c by (simp add: is_at_sign_def)
    ultimately show ?thesis using c by simp
  qed
qed

lemma email_re_space: "is_space c \<Longrightarrow> email_re p (c # cs) = None"
  by (simp add: email_re_Cons)

lemma re_sub_email_Cons:
  "re_sub email_re repl p (c # cs) =
     (case email_re p (c # cs) of
        None \<Rightarrow> c # re_sub email_re repl (Some c) cs
      | Some n \<Rightarrow> repl @ re_sub email_re repl (Some (last (take n (c # cs)))) (drop n (c # cs)))"
proof (cases "email_re p (c # cs)")
  case None
  then show ?thesis by simp
next
  case (Some n)
  then have "0 < n" using email_re_SomeD [of p "c # cs" n] by (simp add: run_end_def)
  then obtain k where "n = Suc k" by (cases n) auto
  then show ?thesis using Some by simp
qed

text \<open>A token that starts without a match has no @ followed by a visible character.\<close>

lemma email_re_None_clean:
  "\<not> is_space c \<Longrightarrow> email_re p (c # cs) = None \<Longrightarrow> run_clean cs"
proof (induction cs arbitrary: c p)
  case Nil
  then show ?case by simp
next
  case (Cons d ds)
  from Cons.prems have n: "email_re (Some c) (d # ds) = None"
    and k: "rx_class is_at_sign (rx_plus is_non_space rx_end) (Some c) (d # ds) = None"
    by (auto simp: email_re_Cons [of p c] split: option.splits)
  show ?case
  proof (cases "is_space d")
    case True
    then show ?thesis by simp
  next
    case False
    then have ds: "run_clean ds" using n by (rule Cons.IH)
    have "\<not> (d = CHR ''@'' \<and> (case ds of [] \<Rightarrow> False | e # es \<Rightarrow> \<not> is_space e))"
    proof
      assume a: "d = CHR ''@'' \<and> (case ds of [] \<Rightarrow> False | e # es \<Rightarrow> \<not> is_space e)"
      then obtain e es where e: "ds = e # es" "\<not> is_space e" by (cases ds) auto
      have "rx_plus is_non_space rx_end (Some d) (e # es) \<noteq> None"
        using e(2) by (simp add: plus_end_Cons del: rx_plus.simps(2) split: option.splits)
      then show False using k a e(1) by (auto simp: is_at_sign_def)
    qed
    then show ?thesis using ds by simp
  qed
qed

subsection \<open>The window predicate\<close>

lemma at_window_mono: "at_window False s \<Longrightarrow> at_window f s"
  by (cases s) auto

lemma at_window_prefix:
  "CHR ''@'' \<notin> set u \<Longrightarrow> u \<noteq> [] \<Longrightarrow> at_window f (u @ r) = at_window (\<not> is_space (last u)) r"
proof (induction u arbitrary: f)
  case Nil
  then show ?case by simp
next
  case (Cons a u)
  then show ?case by (cases "u = []") auto
qed

lemma at_window_append:
  "u \<noteq> [] \<Longrightarrow> at_window (\<not> is_space (last u)) r \<Longrightarrow> at_window f (u @ r)"
proof (induction u arbitrary: f)
  case Nil
  then show ?case by simp
next
  case (Cons a u)
  then show ?case by (cases "u = []") auto
qed

lemma no_window_no_email: "\<not> at_window f s \<Longrightarrow> no_match email_re p s"
proof (induction s arbitrary: f p)
  case Nil
  then show ?case by simp
next
  case (Cons c cs)
  have "email_re p (c # cs) = None"
  proof (cases "email_re p (c # cs)")
    case (Some n)
    then have "at_window f (c # cs)" using email_re_SomeD by blast
    then show ?thesis using Cons.prems by simp
  qed simp
  moreover have "\<not> at_window (\<not> is_space c) cs" using Cons.prems by simp
  then have "no_match email_re (Some c) cs" by (rule Cons.IH)
  ultimately show ?case by simp
qed

subsection \<open>After the email pass no window is left\<close>

lemma re_sub_email_head_space:
  assumes "cs = [] \<or> is_space (hd cs)"
  shows "case re_sub email_re repl q cs of [] \<Rightarrow> True | d # ds \<Rightarrow> is_space d"
proof (cases cs)
  case Nil
  then show ?thesis by simp
next
  case (Cons e es)
  then have "is_space e" using assms by simp
  then show ?thesis using Cons by (simp add: re_sub_email_Cons email_re_space del: re_sub.simps(2))
qed

lemma re_sub_email_clean:
  assumes "CHR ''@'' \<notin> set repl" and "repl \<noteq> []" and "\<not> is_space (last repl)"
  shows "(f \<longrightarrow> run_clean x) \<Longrightarrow> \<not> at_window f (re_sub email_re repl p x)"
proof (induction x arbitrary: f p rule: length_induct)
  case (1 x)
  show ?case
  proof (cases x)
    case Nil
    then show ?thesis by simp
  next
    case (Cons c cs)
    show ?thesis
    proof (cases "email_re p (c # cs)")
      case None
      let ?r = "re_sub email_re repl (Some c) cs"
      have out: "re_sub email_re repl p x = c # ?r"
        using None Cons by (simp add: re_sub_email_Cons del: re_sub.simps(2))
      have "\<not> is_space c \<longrightarrow> run_clean cs"
        using None email_re_None_clean by blast
      then have ii: "\<not> at_window (\<not> is_space c) ?r" using 1 Cons by simp
      have i: "\<not> (f \<and> c = CHR ''@'' \<and> (case ?r of [] \<Rightarrow> False | d # ds \<Rightarrow> \<not> is_space d))"
      proof
        assume a: "f \<and> c = CHR ''@'' \<and> (case ?r of [] \<Rightarrow> False | d # ds \<Rightarrow> \<not> is_space d)"
        then have "run_clean (c # cs)" using "1.prems" Cons by simp
        moreover have "\<not> is_space c" using a by (simp add: is_space_def)
        ultimately have "cs = [] \<or> is_space (hd cs)" using a by (cases cs) auto
        then have "case ?r of [] \<Rightarrow> True | d # ds \<Rightarrow> is_space d"
          by (rule re_sub_email_head_space)
        then show False using a by (cases ?r) auto
      qed
      show ?thesis unfolding out using i ii by simp
    next
      case (Some n)
      let ?rest = "drop n (c # cs)"
      let ?r = "re_sub email_re repl (Some (last (take n (c # cs)))) ?rest"
      have out: "re_sub email_re repl p x = repl @ ?r"
        using Some Cons by (simp add: re_sub_email_Cons del: re_sub.simps(2))
      from email_re_SomeD [OF Some] have e: "run_end n (c # cs)" by simp
      then have "length ?rest < length x" using Cons by (simp add: run_end_def)
      moreover have "run_clean ?rest" using e by (cases ?rest) (auto simp: run_end_def)
      ultimately have "\<not> at_window True ?r" using 1 by blast
      then show ?thesis unfolding out using assms by (simp add: at_window_prefix)
    qed
  qed
qed

subsection \<open>The phone pass makes no window\<close>

lemma re_sub_phone_head_visible:
  assumes "re_sub phone_re repl q cs = d # r" and "\<not> is_space d"
  shows "\<exists>e es. cs = e # es \<and> \<not> is_space e"
proof (cases cs)
  case Nil
  then show ?thesis using assms by simp
next
  case (Cons e es)
  show ?thesis
  proof (cases "phone_re q (e # es)")
    case None
    then show ?thesis using assms Cons by (auto simp: re_sub_phone_Cons simp del: re_sub.simps(2))
  next
    case (Some n)
    then have "is_digit e" using phone_re_SomeD(3) by blast
    then show ?thesis using Cons by (simp add: digit_not_space)
  qed
qed

lemma re_sub_phone_no_window:
  assumes "CHR ''@'' \<notin> set repl" and "repl \<noteq> []" and "\<not> is_space (last repl)"
  shows "\<not> at_window f y \<Longrightarrow> \<not> at_window f (re_sub phone_re repl p y)"
proof (induction y arbitrary: f p rule: length_induct)
  case (1 y)
  show ?case
  proof (cases y)
    case Nil
    then show ?thesis by simp
  next
    case (Cons c cs)
    show ?thesis
    proof (cases "phone_re p (c # cs)")
      case None
      let ?r = "re_sub phone_re repl (Some c) cs"
      have out: "re_sub phone_re repl p y = c # ?r"
        using None Cons by (simp add: re_sub_phone_Cons del: re_sub.simps(2))
      have "\<not> at_window (\<not> is_space c) cs" using "1.prems" Cons by simp
      then have ii: "\<not> at_window (\<not> is_space c) ?r" using 1 Cons by simp
      have i: "\<not> (f \<and> c = CHR ''@'' \<and> (case ?r of [] \<Rightarrow> False | d # ds \<Rightarrow> \<not> is_space d))"
      proof
        assume a: "f \<and> c = CHR ''@'' \<and> (case ?r of [] \<Rightarrow> False | d # ds \<Rightarrow> \<not> is_space d)"
        then obtain d ds where d: "?r = d # ds" "\<not> is_space d" by (cases ?r) auto
        from re_sub_phone_head_visible [OF d] obtain e es where "cs = e # es" "\<not> is_space e"
          by blast
        then have "at_window f (c # cs)" using a by simp
        then show False using "1.prems" Cons by simp
      qed
      show ?thesis unfolding out using i ii by simp
    next
      case (Some n)
      let ?w = "take n (c # cs)"
      let ?rest = "drop n (c # cs)"
      let ?r = "re_sub phone_re repl (Some (last ?w)) ?rest"
      have out: "re_sub phone_re repl p y = repl @ ?r"
        using Some Cons by (simp add: re_sub_phone_Cons del: re_sub.simps(2))
      from phone_re_SomeD(2) [OF Some] have t: "0 < n" "is_digit (last ?w)"
        by (auto simp: tail_ok_def)
      then have w: "?w \<noteq> []" "\<not> is_space (last ?w)" by (auto simp: digit_not_space)
      have "\<not> at_window True ?rest"
      proof
        assume "at_window True ?rest"
        then have "at_window (\<not> is_space (last ?w)) ?rest" using w(2) by simp
        with w(1) have "at_window f (?w @ ?rest)" by (rule at_window_append)
        then show False using "1.prems" Cons by simp
      qed
      moreover have "length ?rest < length y" using t(1) Cons by simp
      ultimately have "\<not> at_window True ?r" using 1 by blast
      then show ?thesis unfolding out using assms by (simp add: at_window_prefix)
    qed
  qed
qed

subsection \<open>The scrubber\<close>

text \<open>Neither pattern matches the empty string.\<close>

lemma patterns_never_empty: "email_re p s \<noteq> Some 0" "phone_re p s \<noteq> Some 0"
proof -
  show "email_re p s \<noteq> Some 0"
    using email_re_SomeD [of p s 0] by (auto simp: run_end_def)
  show "phone_re p s \<noteq> Some 0"
    using phone_re_SomeD(2) [of p s 0] by (auto simp: tail_ok_def)
qed

lemma scrub_no_email:
  "no_match email_re None
     (re_sub phone_re ''[PHONE_REDACTED]'' None (re_sub email_re ''[EMAIL_REDACTED]'' None s))"
proof -
  have "\<not> at_window False (re_sub email_re ''[EMAIL_REDACTED]'' None s)"
    by (rule re_sub_email_clean) (simp_all add: is_space_def)
  then have "\<not> at_window False
      (re_sub phone_re ''[PHONE_REDACTED]'' None (re_sub email_re ''[EMAIL_REDACTED]'' None s))"
    by (rule re_sub_phone_no_window [rotated 3]) (simp_all add: is_space_def)
  then show ?thesis by (rule no_window_no_email)
qed

lemma scrub_fixed:
  fixes s :: string
  defines "z \<equiv> re_sub phone_re ''[PHONE_REDACTED]'' None (re_sub email_re ''[EMAIL_REDACTED]'' None s)"
  shows "re_sub phone_re ''[PHONE_REDACTED]'' None (re_sub email_re ''[EMAIL_REDACTED]'' None z) = z"
proof -
  have "no_match email_re None z" unfolding z_def by (rule scrub_no_email)
  then have e: "re_sub email_re ''[EMAIL_REDACTED]'' None z = z" by (rule re_sub_no_match)
  have "no_match phone_re None z" unfolding z_def by (rule re_sub_phone_no_match)
  then have "re_sub phone_re ''[PHONE_REDACTED]'' None z = z" by (rule re_sub_no_match)
  then show ?thesis by (simp only: e)
qed


lemma scrub_example:
  "re_sub phone_re ''[PHONE_REDACTED]'' None
     (re_sub email_re ''[EMAIL_REDACTED]'' None ''Contact me at a@b.com or 555-123-4567'')
   = ''Contact me at [EMAIL_REDACTED] or [PHONE_REDACTED]''"
  by code_simp

text \<open>
  C9. \<open>anonymize_text\<close> replaces what the email pattern and the phone pattern match: the
  text "Contact me at a@b.com or 555-123-4567" becomes "Contact me at [EMAIL_REDACTED] or
  [PHONE_REDACTED]", and in the result of any text neither pattern matches at any
  position.
\<close>

theorem anonymize_text_redacts:
  "anonymize_text (Str ''Contact me at a@b.com or 555-123-4567'')
     = Str ''Contact me at [EMAIL_REDACTED] or [PHONE_REDACTED]''
   \<and> (\<exists>r. anonymize_text (Str s) = Str r
         \<and> no_match email_re None r \<and> no_match phone_re None r)"
proof -
  have "anonymize_text (Str ''Contact me at a@b.com or 555-123-4567'')
     = Str ''Contact me at [EMAIL_REDACTED] or [PHONE_REDACTED]''"
    by (simp only: anonymize_text_def Let_def py_value.case scrub_example)
  moreover have "\<exists>r. anonymize_text (Str s) = Str r
         \<and> no_match email_re None r \<and> no_match phone_re None r"
    using scrub_no_email [of s]
      re_sub_phone_no_match [of None "re_sub email_re ''[EMAIL_REDACTED]'' None s"]
    by (simp add: anonymize_text_def Let_def)
  ultimately show ?thesis by blast
qed

lemma scrub_example_two:
  "re_sub phone_re ''[PHONE_REDACTED]'' None
     (re_sub email_re ''[EMAIL_REDACTED]'' None ''@555 123 4567@ call 5551234567 or x@y'')
   = ''@[PHONE_REDACTED]@ call [PHONE_REDACTED] or [EMAIL_REDACTED]''"
  by code_simp

theorem anonymize_text_redacts_witness:
  "anonymize_text (Str ''@555 123 4567@ call 5551234567 or x@y'')
     = Str ''@[PHONE_REDACTED]@ call [PHONE_REDACTED] or [EMAIL_REDACTED]''
   \<and> no_match email_re None ''@[PHONE_REDACTED]@ call [PHONE_REDACTED] or [EMAIL_REDACTED]''
   \<and> no_match phone_re None ''@[PHONE_REDACTED]@ call [PHONE_REDACTED] or [EMAIL_REDACTED]''"
proof -
  have v: "anonymize_text (Str ''@555 123 4567@ call 5551234567 or x@y'')
     = Str ''@[PHONE_REDACTED]@ call [PHONE_REDACTED] or [EMAIL_REDACTED]''"
    by (simp only: anonymize_text_def Let_def py_value.case scrub_example_two)
  from anonymize_text_redacts [of "''@555 123 4567@ call 5551234567 or x@y''"]
  obtain r where r: "anonymize_text (Str ''@555 123 4567@ call 5551234567 or x@y'') = Str r"
      "no_match email_re None r" "no_match phone_re None r"
    by blast
  have eq: "r = ''@[PHONE_REDACTED]@ call [PHONE_REDACTED] or [EMAIL_REDACTED]''"
    using r(1) unfolding v by (simp only: py_value.inject)
  show ?thesis
    using v r(2,3) unfolding eq by (intro conjI)
qed

text \<open>
  C10. \<open>anonymize_text\<close> is idempotent on every value: a value that is not a string is
  returned unchanged, and on a scrubbed string a second pass of either substitution
  changes nothing, so the placeholders are not matched again.
\<close>

theorem anonymize_text_idempotent:
  "anonymize_text (anonymize_text v) = anonymize_text v
   \<and> anonymize_text (NotStr x) = NotStr x
   \<and> (anonymize_text (Str s) = Str r \<longrightarrow>
        re_sub email_re ''[EMAIL_REDACTED]'' None r = r
        \<and> re_sub phone_re ''[PHONE_REDACTED]'' None r = r)"
proof -
  have 1: "anonymize_text (anonymize_text v) = anonymize_text v"
  proof (cases v)
    case (Str t)
    then show ?thesis using scrub_fixed [of t] by (simp add: anonymize_text_def Let_def)
  next
    case (NotStr y)
    then show ?thesis by (simp add: anonymize_text_def)
  qed
  have 2: "anonymize_text (NotStr x) = NotStr x" by (simp add: anonymize_text_def)
  have 3: "re_sub email_re ''[EMAIL_REDACTED]'' None r = r
        \<and> re_sub phone_re ''[PHONE_REDACTED]'' None r = r"
    if "anonymize_text (Str s) = Str r"
  proof -
    from that have r: "r = re_sub phone_re ''[PHONE_REDACTED]'' None
        (re_sub email_re ''[EMAIL_REDACTED]'' None s)"
      by (simp add: anonymize_text_def Let_def)
    have "no_match email_re None r" unfolding r by (rule scrub_no_email)
    moreover have "no_match phone_re None r" unfolding r by (rule re_sub_phone_no_match)
    ultimately show ?thesis by (simp add: re_sub_no_match)
  qed
  show ?thesis using 1 2 3 by blast
qed

theorem anonymize_text_idempotent_witness:
  "anonymize_text (Str ''Contact me at a@b.com or 555-123-4567'')
     = Str ''Contact me at [EMAIL_REDACTED] or [PHONE_REDACTED]''
   \<and> anonymize_text (Str ''Contact me at [EMAIL_REDACTED] or [PHONE_REDACTED]'')
     = Str ''Contact me at [EMAIL_REDACTED] or [PHONE_REDACTED]''
   \<and> anonymize_text (NotStr (42 :: int)) = NotStr 42"
proof -
  have e: "anonymize_text (Str ''Contact me at a@b.com or 555-123-4567'')
     = Str ''Contact me at [EMAIL_REDACTED] or [PHONE_REDACTED]''"
    by (simp only: anonymize_text_def Let_def py_value.case scrub_example)
  show ?thesis
    using anonymize_text_idempotent
      [of "Str ''Contact me at a@b.com or 555-123-4567''" "42 :: int"
          "''Contact me at a@b.com or 555-123-4567''"
          "''Contact me at [EMAIL_REDACTED] or [PHONE_REDACTED]''"]
    by (simp only: e simp_thms, blast)
qed

end
